theory Spec2Isabelle
  imports Complex_Main "HOL-Library.Multiset" "HOL-Library.Sublist" "HOL-Library.AList"
begin

section \<open>Errors\<close>

text \<open>
  The exceptions of \<^verbatim>\<open>lipimerge/internal/exceptions.py\<close> that the modelled functions raise,
  together with the built-in Python exceptions that the modelled code can run into.
  Every raise of the source is a value \<open>Inl e\<close> of the result type \<open>error + 'a\<close>.
  A cell value \<open>val\<close> is a text or a number. A number is given by its value, a rational:
  the integer 1 and the float 1.0 are equal in Python, also as names. The arithmetic of
  floats is not modelled; the one function of the code that computes with them,
  \<^verbatim>\<open>math.isclose\<close>, is a parameter of the model. The \<^verbatim>\<open>details\<close> strings of a ConsistencyError
  are kept as structured values: the label that was not found, the source and destination
  record, row, class, column and value of the offending cell, or the name of a sheet.
\<close>

datatype val = Str string | Num rat

datatype detail =
    DataRecord "val option"
  | LipidClass "val option"
  | LipidClassNotText "val option"
  | CellContext "val option" nat "val option" nat val "val option" nat "val option" nat "val option"
  | MissingSheet string
  | SheetName string

datatype error =
    IndexError
  | TypeError
  | AttributeError
  | OverflowError
  | InvalidCellIndex string int int nat nat
  | ConsistencyError string "detail list"

section \<open>Generic in-place sorter (\<^verbatim>\<open>lipimerge/internal/utils.py\<close>)\<close>

subsection \<open>The container of the tests: a Python list\<close>

text \<open>
  \<^verbatim>\<open>tests/lipimerge/internal/test_utils.py\<close> instantiates the sorters with
  \<^verbatim>\<open>less(arr, i, j) = arr[i] < arr[j]\<close> and
  \<^verbatim>\<open>swap(arr, i, j): arr[i], arr[j] = arr[j], arr[i]\<close>.
  Python indexing accepts \<open>-len \<le> i < len\<close> and raises IndexError otherwise.
\<close>

definition py_index :: "'a list \<Rightarrow> int \<Rightarrow> nat option" where
  "py_index xs i =
     (let n = int (length xs); j = (if i < 0 then n + i else i)
      in if 0 \<le> j \<and> j < n then Some (nat j) else None)"

definition list_less :: "('a::linorder) list \<Rightarrow> int \<Rightarrow> int \<Rightarrow> error + bool" where
  "list_less arr i j =
     (case py_index arr i of None \<Rightarrow> Inl IndexError
      | Some a \<Rightarrow> (case py_index arr j of None \<Rightarrow> Inl IndexError
                   | Some b \<Rightarrow> Inr (arr ! a < arr ! b)))"

definition list_swap :: "'a list \<Rightarrow> int \<Rightarrow> int \<Rightarrow> error + 'a list" where
  "list_swap arr i j =
     (case py_index arr j of None \<Rightarrow> Inl IndexError
      | Some b \<Rightarrow> (case py_index arr i of None \<Rightarrow> Inl IndexError
                   | Some a \<Rightarrow> Inr ((arr[a := arr ! b])[b := arr ! a])))"

subsection \<open>quick_sort\<close>

text \<open>
  The inner function \<^verbatim>\<open>partition3\<close>: \<open>pivot\<close> is an index (\<^verbatim>\<open>pivot = last\<close>), and every
  comparison reads the element that is at that index at the time of the comparison.
  The loop \<^verbatim>\<open>while i <= gt\<close> is the recursion below; each round either advances \<open>i\<close> or
  lowers \<open>gt\<close>.
\<close>

function partition3_loop ::
  "('c \<Rightarrow> int \<Rightarrow> int \<Rightarrow> 'e + bool) \<Rightarrow> ('c \<Rightarrow> int \<Rightarrow> int \<Rightarrow> 'e + 'c) \<Rightarrow> int \<Rightarrow>
   'c \<Rightarrow> int \<Rightarrow> int \<Rightarrow> int \<Rightarrow> 'e + ('c \<times> int \<times> int)" where
  "partition3_loop lessf swapf pivot container lt i gt =
     (if i \<le> gt then
        (case lessf container i pivot of
           Inl e \<Rightarrow> Inl e
         | Inr b1 \<Rightarrow>
             if b1 then
               (case swapf container lt i of
                  Inl e \<Rightarrow> Inl e
                | Inr c' \<Rightarrow> partition3_loop lessf swapf pivot c' (lt + 1) (i + 1) gt)
             else
               (case lessf container pivot i of
                  Inl e \<Rightarrow> Inl e
                | Inr b2 \<Rightarrow>
                    if b2 then
                      (case swapf container i gt of
                         Inl e \<Rightarrow> Inl e
                       | Inr c' \<Rightarrow> partition3_loop lessf swapf pivot c' lt i (gt - 1))
                    else partition3_loop lessf swapf pivot container lt (i + 1) gt))
      else Inr (container, lt, gt))"
  by pat_completeness auto
termination
  by (relation "measure (\<lambda>(lessf, swapf, pivot, container, lt, i, gt). nat (gt + 1 - i))") auto

definition partition3 ::
  "('c \<Rightarrow> int \<Rightarrow> int \<Rightarrow> 'e + bool) \<Rightarrow> ('c \<Rightarrow> int \<Rightarrow> int \<Rightarrow> 'e + 'c) \<Rightarrow>
   'c \<Rightarrow> int \<Rightarrow> int \<Rightarrow> 'e + ('c \<times> int \<times> int)" where
  "partition3 lessf swapf container lasti begin =
     partition3_loop lessf swapf lasti container begin begin lasti"

text \<open>
  \<^verbatim>\<open>quick_sort(container, less, swap, end, begin)\<close>. For an arbitrary \<open>less\<close> the recursion
  need not end (with a \<open>less\<close> that always answers True, \<open>lt\<close> reaches \<open>end\<close> and the first
  recursive call repeats the range), so the result is an option: \<open>None\<close> is "does not return".
\<close>

partial_function (option) quick_sort ::
  "('c \<Rightarrow> int \<Rightarrow> int \<Rightarrow> 'e + bool) \<Rightarrow> ('c \<Rightarrow> int \<Rightarrow> int \<Rightarrow> 'e + 'c) \<Rightarrow>
   'c \<Rightarrow> int \<Rightarrow> int \<Rightarrow> ('e + 'c) option" where
  "quick_sort lessf swapf container end begin =
     (if begin < end - 1 then
        (case partition3 lessf swapf container (end - 1) begin of
           Inl e \<Rightarrow> Some (Inl e)
         | Inr (c1, lt, gt) \<Rightarrow>
             Option.bind (quick_sort lessf swapf c1 lt begin)
               (\<lambda>r1. case r1 of
                  Inl e \<Rightarrow> Some (Inl e)
                | Inr c2 \<Rightarrow> quick_sort lessf swapf c2 end (gt + 1)))
      else Some (Inr container))"

subsection \<open>selection_sort_step\<close>

text \<open>
  A Python \<^verbatim>\<open>for\<close> loop whose body can raise: the fold stops at the first error.
\<close>

fun foldE :: "('a \<Rightarrow> 's \<Rightarrow> 'e + 's) \<Rightarrow> 'a list \<Rightarrow> 's \<Rightarrow> 'e + 's" where
  "foldE f [] s = Inr s"
| "foldE f (x # xs) s = (case f x s of Inl e \<Rightarrow> Inl e | Inr s' \<Rightarrow> foldE f xs s')"

text \<open>
  The inner function \<^verbatim>\<open>find_min\<close>: \<^verbatim>\<open>for i in range(begin+1, end)\<close> keeps the index of the
  least element seen so far, replacing it only on a strict \<open>less\<close>.
\<close>

definition find_min ::
  "('c \<Rightarrow> int \<Rightarrow> int \<Rightarrow> 'e + bool) \<Rightarrow> 'c \<Rightarrow> int \<Rightarrow> int \<Rightarrow> 'e + int" where
  "find_min lessf container end begin =
     foldE (\<lambda>i result. case lessf container i result of
                          Inl e \<Rightarrow> Inl e
                        | Inr b \<Rightarrow> Inr (if b then i else result))
           [begin + 1..end - 1] begin"

definition selection_sort_step ::
  "('c \<Rightarrow> int \<Rightarrow> int \<Rightarrow> 'e + bool) \<Rightarrow> ('c \<Rightarrow> int \<Rightarrow> int \<Rightarrow> 'e + 'c) \<Rightarrow>
   'c \<Rightarrow> int \<Rightarrow> int \<Rightarrow> 'e + 'c" where
  "selection_sort_step lessf swapf container end begin =
     (case find_min lessf container end begin of
        Inl e \<Rightarrow> Inl e
      | Inr m \<Rightarrow> swapf container begin m)"

text \<open>
  The calling protocol of the docstring ("to be consecutively called with
  \<^verbatim>\<open>begin = 0..(len-1)\<close>"): one step per \<open>begin\<close>, each with \<^verbatim>\<open>end = len\<close>.
\<close>

definition selection_sort_steps ::
  "('c \<Rightarrow> int \<Rightarrow> int \<Rightarrow> 'e + bool) \<Rightarrow> ('c \<Rightarrow> int \<Rightarrow> int \<Rightarrow> 'e + 'c) \<Rightarrow>
   'c \<Rightarrow> int \<Rightarrow> 'e + 'c" where
  "selection_sort_steps lessf swapf container len =
     foldE (\<lambda>begin c. selection_sort_step lessf swapf c len begin) [0..len - 1] container"

section \<open>Worksheets\<close>

text \<open>
  The sheets are openpyxl worksheets. A worksheet keeps the cells that exist; its
  \<^verbatim>\<open>max_row\<close> and \<^verbatim>\<open>max_column\<close> are the largest row and column index of an existing
  cell, and 1 when there is none. \<^verbatim>\<open>sheet.cell(r, c)\<close> creates the cell when it does not
  exist, so that a read outside the bounds enlarges them; so do the row and column iterators,
  which stay inside the bounds. The model keeps the two bounds and the values; a position
  without a value reads as \<open>None\<close>.
\<close>

record worksheet =
  title :: string
  max_row :: nat
  max_column :: nat
  cells :: "nat \<times> nat \<Rightarrow> val option"

text \<open>What openpyxl maintains: bounds of at least 1, and no value outside them.\<close>

definition sheet_ok :: "worksheet \<Rightarrow> bool" where
  "sheet_ok sh \<longleftrightarrow>
     1 \<le> max_row sh \<and> 1 \<le> max_column sh \<and>
     (\<forall>r c. cells sh (r, c) \<noteq> None \<longrightarrow> 1 \<le> r \<and> r \<le> max_row sh \<and> 1 \<le> c \<and> c \<le> max_column sh)"

text \<open>A new sheet (\<^verbatim>\<open>create_sheet\<close>): the degenerate table.\<close>

definition new_sheet :: "string \<Rightarrow> worksheet" where
  "new_sheet t = \<lparr>title = t, max_row = 1, max_column = 1, cells = (\<lambda>_. None)\<rparr>"

definition ws_touch :: "worksheet \<Rightarrow> nat \<Rightarrow> nat \<Rightarrow> worksheet" where
  "ws_touch sh r c = sh\<lparr>max_row := max (max_row sh) r, max_column := max (max_column sh) c\<rparr>"

text \<open>\<^verbatim>\<open>sheet.cell(r, c).value\<close>: the value, and the sheet with the cell in existence.\<close>

definition ws_cell :: "worksheet \<Rightarrow> nat \<Rightarrow> nat \<Rightarrow> val option \<times> worksheet" where
  "ws_cell sh r c = (cells sh (r, c), ws_touch sh r c)"

text \<open>
  \<^verbatim>\<open>sheet.cell(r, c, value)\<close>: openpyxl assigns the value only when it is not \<^verbatim>\<open>None\<close>;
  the cell comes into existence either way.
\<close>

definition ws_cell_set :: "worksheet \<Rightarrow> nat \<Rightarrow> nat \<Rightarrow> val option \<Rightarrow> worksheet" where
  "ws_cell_set sh r c v =
     (case v of
        None \<Rightarrow> ws_touch sh r c
      | Some x \<Rightarrow> (ws_touch sh r c)\<lparr>cells := (cells sh)((r, c) := Some x)\<rparr>)"

text \<open>\<^verbatim>\<open>sheet.cell(r, c).value = v\<close>: the assignment to the cell, which stores \<^verbatim>\<open>None\<close> too.\<close>

definition ws_assign :: "worksheet \<Rightarrow> nat \<Rightarrow> nat \<Rightarrow> val option \<Rightarrow> worksheet" where
  "ws_assign sh r c v = (ws_touch sh r c)\<lparr>cells := (cells sh)((r, c) := v)\<rparr>"

text \<open>
  \<^verbatim>\<open>sheet.append([v])\<close> writes \<open>v\<close> into column 1 of the row after the last one. (openpyxl
  appends after its row cursor, which is \<^verbatim>\<open>max_row\<close> as soon as a cell exists; the only
  caller, \<^verbatim>\<open>merge\<close>, has read row 1 of the sheet before it appends.)
\<close>

definition ws_append :: "worksheet \<Rightarrow> val option \<Rightarrow> worksheet" where
  "ws_append sh v =
     sh\<lparr>max_row := max_row sh + 1, cells := (cells sh)((max_row sh + 1, 1) := v)\<rparr>"

fun read_cells :: "worksheet \<Rightarrow> (nat \<times> nat) list \<Rightarrow> val option list \<times> worksheet" where
  "read_cells sh [] = ([], sh)"
| "read_cells sh ((r, c) # ps) =
     (let (v, sh1) = ws_cell sh r c; (vs, sh2) = read_cells sh1 ps in (v # vs, sh2))"

text \<open>
  \<^verbatim>\<open>get_class_names\<close>: the values of row 1, columns 1 to \<^verbatim>\<open>max_column\<close>
  (\<^verbatim>\<open>next(sheet.iter_rows(min_row=1, max_row=1, values_only=True))\<close>).
  \<^verbatim>\<open>get_record_names\<close>: the values of column 1, rows 1 to \<^verbatim>\<open>max_row\<close>.
\<close>

definition get_class_names :: "worksheet \<Rightarrow> val option list \<times> worksheet" where
  "get_class_names sheet = read_cells sheet (map (\<lambda>c. (1, c)) [1..<max_column sheet + 1])"

definition get_record_names :: "worksheet \<Rightarrow> val option list \<times> worksheet" where
  "get_record_names sheet = read_cells sheet (map (\<lambda>r. (r, 1)) [1..<max_row sheet + 1])"

section \<open>Blank samples (\<^verbatim>\<open>utils.is_blank\<close>)\<close>

text \<open>
  \<^verbatim>\<open>False if record is None else "blank" in record.casefold()\<close>. Characters are 8-bit;
  among them only the ASCII capitals fold to a letter of \<^verbatim>\<open>blank\<close>, which is all the
  substring test can see; a capital becomes its small letter by setting bit 5 (adding 32). A number has no \<^verbatim>\<open>casefold\<close>: AttributeError.
\<close>

definition casefold_char :: "char \<Rightarrow> char" where
  "casefold_char c =
     (case c of Char b0 b1 b2 b3 b4 b5 b6 b7 \<Rightarrow>
        if 65 \<le> (of_char c :: nat) \<and> (of_char c :: nat) \<le> 90
        then Char b0 b1 b2 b3 b4 True b6 b7 else c)"

definition is_blank :: "val option \<Rightarrow> error + bool" where
  "is_blank record =
     (case record of
        None \<Rightarrow> Inr False
      | Some (Str s) \<Rightarrow> Inr (sublist ''blank'' (map casefold_char s))
      | Some (Num n) \<Rightarrow> Inl AttributeError)"

section \<open>Structural validator (\<^verbatim>\<open>xutils.validate_input\<close>)\<close>

text \<open>
  A finding (\<^verbatim>\<open>InputInconsistency\<close>) has a message, the workbook name, the sheet title, a row
  and a column. The message texts are kept as constructors that carry the labels which the
  source interpolates into them. The cross-call context maps
  \<^verbatim>\<open>(sheet.title, record, cls)\<close> to \<^verbatim>\<open>(name, row, column)\<close> of the first occurrence.
\<close>

datatype message =
    NonEmptyA1
  | DuplicateClass val
  | DuplicateRecord val
  | NonEmptyInBlank
  | NonEmptyEmptyClass
  | NonEmptyEmptyRecord
  | DuplicateAcross val val

datatype InputInconsistency = InputInconsistency message string string nat nat

type_synonym validation_context = "string \<times> val \<times> val \<Rightarrow> (string \<times> nat \<times> nat) option"

text \<open>
  The two duplicate scans of \<^verbatim>\<open>validate_sheet\<close> (classes, then records) are the same loop
  up to the position that is reported (\<open>mk\<close>) and the extra \<^verbatim>\<open>continue\<close> of the record scan
  (\<open>skip\<close>: \<^verbatim>\<open>ignore_blanks and is_blank(rec)\<close>). \<open>dup_inner\<close> is the body of
  \<^verbatim>\<open>for j in range(i+1, len(names))\<close>.
\<close>

definition dup_inner ::
  "(val \<Rightarrow> nat \<Rightarrow> InputInconsistency) \<Rightarrow> val option list \<Rightarrow> nat \<Rightarrow> val \<Rightarrow> nat \<Rightarrow>
   val list \<times> InputInconsistency list \<Rightarrow> val list \<times> InputInconsistency list" where
  "dup_inner mk names i x j = (\<lambda>(already_found, result).
     if names ! j = Some x then
       (let (already_found, result) =
              (if x \<notin> set already_found then (already_found @ [x], result @ [mk x i])
               else (already_found, result))
        in (already_found, result @ [mk x j]))
     else (already_found, result))"

text \<open>The body of \<^verbatim>\<open>for i, cls in enumerate(names)\<close>.\<close>

definition dup_outer ::
  "(val \<Rightarrow> error + bool) \<Rightarrow> (val \<Rightarrow> nat \<Rightarrow> InputInconsistency) \<Rightarrow> val option list \<Rightarrow> nat \<Rightarrow>
   val list \<times> InputInconsistency list \<Rightarrow> error + val list \<times> InputInconsistency list" where
  "dup_outer skip mk names i = (\<lambda>(already_found, result).
     case names ! i of
       None \<Rightarrow> Inr (already_found, result)
     | Some x \<Rightarrow>
         if x \<in> set already_found then Inr (already_found, result)
         else (case skip x of
                 Inl e \<Rightarrow> Inl e
               | Inr b \<Rightarrow>
                   if b then Inr (already_found, result)
                   else Inr (fold (dup_inner mk names i x) [i + 1..<length names]
                               (already_found, result))))"

definition find_duplicates ::
  "(val \<Rightarrow> error + bool) \<Rightarrow> (val \<Rightarrow> nat \<Rightarrow> InputInconsistency) \<Rightarrow> val option list \<Rightarrow>
   InputInconsistency list \<Rightarrow> error + InputInconsistency list" where
  "find_duplicates skip mk names result =
     (case foldE (dup_outer skip mk names) [0..<length names] ([], result) of
        Inl e \<Rightarrow> Inl e
      | Inr (already_found, result) \<Rightarrow> Inr result)"

text \<open>
  The innermost loops of the cell checks: a finding for every listed position whose cell has
  a value.
\<close>

definition report_non_empty ::
  "message \<Rightarrow> string \<Rightarrow> (nat \<times> nat) list \<Rightarrow>
   worksheet \<times> InputInconsistency list \<Rightarrow> worksheet \<times> InputInconsistency list" where
  "report_non_empty msg name ps =
     fold (\<lambda>(irow, icol) (sheet, result).
             let (v, sheet) = ws_cell sheet irow icol in
             if v \<noteq> None then (sheet, result @ [InputInconsistency msg name (title sheet) irow icol])
             else (sheet, result)) ps"

text \<open>
  The body of the last loop of \<^verbatim>\<open>validate_sheet\<close> ("all blanks have no values"); its
  columns are \<^verbatim>\<open>range(2, sheet.max_column)\<close>.
\<close>

definition check_blank ::
  "string \<Rightarrow> val option list \<Rightarrow> nat \<Rightarrow> worksheet \<times> InputInconsistency list \<Rightarrow>
   error + worksheet \<times> InputInconsistency list" where
  "check_blank name rec_names i = (\<lambda>(sheet, result).
     case is_blank (rec_names ! i) of
       Inl e \<Rightarrow> Inl e
     | Inr b \<Rightarrow>
         if \<not> b then Inr (sheet, result)
         else Inr (report_non_empty NonEmptyInBlank name
                     (map (\<lambda>icol. (i + 1, icol)) [2..<max_column sheet]) (sheet, result)))"

definition validate_sheet ::
  "string \<Rightarrow> bool \<Rightarrow> worksheet \<Rightarrow> InputInconsistency list \<Rightarrow>
   error + (worksheet \<times> InputInconsistency list)" where
  "validate_sheet name ignore_blanks sheet result =
     (let (a1, sheet) = ws_cell sheet 1 1 in
      if a1 \<noteq> None then
        Inr (sheet, result @ [InputInconsistency NonEmptyA1 name (title sheet) 1 1])
      else
        let (cls_names, sheet) = get_class_names sheet in
        case find_duplicates (\<lambda>cls. Inr False)
               (\<lambda>cls i. InputInconsistency (DuplicateClass cls) name (title sheet) 1 (i + 1))
               cls_names result of
          Inl e \<Rightarrow> Inl e
        | Inr result \<Rightarrow>
            let (rec_names, sheet) = get_record_names sheet in
            case find_duplicates (\<lambda>rec. if ignore_blanks then is_blank (Some rec) else Inr False)
                   (\<lambda>rec i. InputInconsistency (DuplicateRecord rec) name (title sheet) (i + 1) 1)
                   rec_names result of
              Inl e \<Rightarrow> Inl e
            | Inr result \<Rightarrow>
                if \<not> ignore_blanks then
                  foldE (check_blank name rec_names) [0..<length rec_names] (sheet, result)
                else Inr (sheet, result))"

text \<open>The bodies of the two outer loops of \<^verbatim>\<open>validate_empty_cells\<close>.\<close>

definition empty_class_column ::
  "string \<Rightarrow> nat \<Rightarrow> worksheet \<times> InputInconsistency list \<Rightarrow> worksheet \<times> InputInconsistency list"
  where
  "empty_class_column name icol = (\<lambda>(sheet, result).
     let (v, sheet) = ws_cell sheet 1 icol in
     if v \<noteq> None then (sheet, result)
     else report_non_empty NonEmptyEmptyClass name
            (map (\<lambda>irow. (irow, icol)) [2..<max_row sheet + 1]) (sheet, result))"

definition empty_record_row ::
  "string \<Rightarrow> nat \<Rightarrow> worksheet \<times> InputInconsistency list \<Rightarrow> worksheet \<times> InputInconsistency list"
  where
  "empty_record_row name irow = (\<lambda>(sheet, result).
     let (v, sheet) = ws_cell sheet irow 1 in
     if v \<noteq> None then (sheet, result)
     else report_non_empty NonEmptyEmptyRecord name
            (map (\<lambda>icol. (irow, icol)) [2..<max_column sheet + 1]) (sheet, result))"

definition validate_empty_cells ::
  "string \<Rightarrow> worksheet \<Rightarrow> InputInconsistency list \<Rightarrow> worksheet \<times> InputInconsistency list" where
  "validate_empty_cells name sheet result =
     (let (sheet, result) =
            fold (empty_class_column name) [2..<max_column sheet + 1] (sheet, result)
      in fold (empty_record_row name) [2..<max_row sheet + 1] (sheet, result))"

text \<open>The body of \<^verbatim>\<open>for j, cls in enumerate(get_class_names(sheet))\<close>.\<close>

definition across_inner ::
  "string \<Rightarrow> string \<Rightarrow> val option list \<Rightarrow> nat \<Rightarrow> val \<Rightarrow> nat \<Rightarrow>
   InputInconsistency list \<times> validation_context \<Rightarrow> InputInconsistency list \<times> validation_context" where
  "across_inner name ttl cls_names i record j = (\<lambda>(result, context).
     case cls_names ! j of
       None \<Rightarrow> (result, context)
     | Some cls \<Rightarrow>
         (let key = (ttl, record, cls) in
          case context key of
            None \<Rightarrow> (result, context(key \<mapsto> (name, i + 1, j + 1)))
          | Some (n0, r0, c0) \<Rightarrow>
              if n0 = name then (result, context)
              else (result @ [InputInconsistency (DuplicateAcross cls record) n0 ttl r0 c0,
                              InputInconsistency (DuplicateAcross cls record) name ttl (i + 1) (j + 1)],
                    context)))"

text \<open>The body of \<^verbatim>\<open>for i, record in enumerate(get_record_names(sheet))\<close>.\<close>

definition across_outer ::
  "string \<Rightarrow> bool \<Rightarrow> val option list \<Rightarrow> nat \<Rightarrow>
   worksheet \<times> InputInconsistency list \<times> validation_context \<Rightarrow>
   error + worksheet \<times> InputInconsistency list \<times> validation_context" where
  "across_outer name ignore_blanks rec_names i = (\<lambda>(sheet, result, context).
     case rec_names ! i of
       None \<Rightarrow> Inr (sheet, result, context)
     | Some record \<Rightarrow>
         (case (if ignore_blanks then is_blank (Some record) else Inr False) of
            Inl e \<Rightarrow> Inl e
          | Inr b \<Rightarrow>
              if b then Inr (sheet, result, context)
              else
                let (cls_names, sheet) = get_class_names sheet;
                    (result, context) =
                       fold (across_inner name (title sheet) cls_names i record)
                            [0..<length cls_names] (result, context)
                in Inr (sheet, result, context)))"

definition validate_duplicates_across_workbooks ::
  "string \<Rightarrow> bool \<Rightarrow> worksheet \<Rightarrow> InputInconsistency list \<Rightarrow> validation_context \<Rightarrow>
   error + (worksheet \<times> InputInconsistency list \<times> validation_context)" where
  "validate_duplicates_across_workbooks name ignore_blanks sheet result context =
     (let (rec_names, sheet) = get_record_names sheet in
      foldE (across_outer name ignore_blanks rec_names) [0..<length rec_names]
            (sheet, result, context))"

text \<open>
  \<^verbatim>\<open>validate_input\<close>: the three checks on every sheet of the workbook, in order. The early
  \<^verbatim>\<open>return\<close> of \<^verbatim>\<open>validate_sheet\<close> leaves only that inner function. The workbook is its list
  of sheets; the model returns it next to the findings and the context, which the source
  changes in place.
\<close>

fun validate_sheets ::
  "string \<Rightarrow> bool \<Rightarrow> worksheet list \<Rightarrow> InputInconsistency list \<Rightarrow> validation_context \<Rightarrow>
   error + (worksheet list \<times> InputInconsistency list \<times> validation_context)" where
  "validate_sheets name ignore_blanks [] result context = Inr ([], result, context)"
| "validate_sheets name ignore_blanks (sheet # rest) result context =
     (case validate_sheet name ignore_blanks sheet result of
        Inl e \<Rightarrow> Inl e
      | Inr (sheet, result) \<Rightarrow>
          let (sheet, result) = validate_empty_cells name sheet result in
          case validate_duplicates_across_workbooks name ignore_blanks sheet result context of
            Inl e \<Rightarrow> Inl e
          | Inr (sheet, result, context) \<Rightarrow>
              (case validate_sheets name ignore_blanks rest result context of
                 Inl e \<Rightarrow> Inl e
               | Inr (rest, result, context) \<Rightarrow> Inr (sheet # rest, result, context)))"

definition validate_input ::
  "worksheet list \<Rightarrow> string \<Rightarrow> bool \<Rightarrow> InputInconsistency list \<Rightarrow> validation_context \<Rightarrow>
   error + (worksheet list \<times> InputInconsistency list \<times> validation_context)" where
  "validate_input workbook name ignore_blanks result context =
     validate_sheets name ignore_blanks workbook result context"

section \<open>Merger (\<^verbatim>\<open>xutils.merge\<close>)\<close>

text \<open>\<^verbatim>\<open>list.index(value)\<close>: the first position of an equal element, if there is one.\<close>

fun list_index :: "'a list \<Rightarrow> 'a \<Rightarrow> nat option" where
  "list_index [] v = None"
| "list_index (x # xs) v = (if x = v then Some 0 else map_option Suc (list_index xs v))"

text \<open>
  The inner \<^verbatim>\<open>mapper\<close> of \<^verbatim>\<open>merge\<close>. Its first line tests \<^verbatim>\<open>str is None\<close>, the built-in type
  and not the argument, so it never returns \<^verbatim>\<open>None\<close>: a \<^verbatim>\<open>None\<close> class is looked up like any
  other value. \<open>dst_classes\<close> is the list read before the first call; it does not grow with
  the destination.
\<close>

definition mapper ::
  "worksheet \<Rightarrow> val option list \<Rightarrow> val option \<Rightarrow> nat option \<times> worksheet" where
  "mapper destination dst_classes value =
     (case list_index dst_classes value of
        Some k \<Rightarrow> (Some (k + 1), destination)
      | None \<Rightarrow>
          (let destination = ws_cell_set destination 1 (max_column destination + 1) value
           in (Some (max_column destination), destination)))"

text \<open>\<^verbatim>\<open>[mapper(destination, dst_classes, value) for value in src_classes]\<close>\<close>

fun map_classes ::
  "worksheet \<Rightarrow> val option list \<Rightarrow> val option list \<Rightarrow> nat option list \<times> worksheet" where
  "map_classes destination dst_classes [] = ([], destination)"
| "map_classes destination dst_classes (value # rest) =
     (let (k, destination) = mapper destination dst_classes value;
          (ks, destination) = map_classes destination dst_classes rest
      in (k # ks, destination))"

text \<open>
  The body of \<^verbatim>\<open>for row in source.iter_rows(2, values_only=True)\<close>; \<open>row\<close> is the tuple of
  the values of one source row, columns 1 to \<^verbatim>\<open>max_column\<close>.
\<close>

definition merge_row ::
  "bool \<Rightarrow> val option list \<Rightarrow> nat option list \<Rightarrow> val option list \<Rightarrow> worksheet \<Rightarrow>
   error + worksheet" where
  "merge_row ignore_blanks dst_records src_dst_map row destination =
     (if row ! 0 = None then Inr destination
      else
        case (if ignore_blanks then is_blank (row ! 0) else Inr False) of
          Inl e \<Rightarrow> Inl e
        | Inr b \<Rightarrow>
            if b then Inr destination
            else
              let (irow, destination) =
                    (case list_index dst_records (row ! 0) of
                       Some k \<Rightarrow> (k + 1, destination)
                     | None \<Rightarrow>
                         (let destination = ws_append destination (row ! 0)
                          in (max_row destination, destination)))
              in Inr (fold (\<lambda>icol destination.
                              case src_dst_map ! icol of
                                None \<Rightarrow> destination
                              | Some c \<Rightarrow> ws_cell_set destination irow c (row ! icol))
                           [1..<length src_dst_map] destination))"

definition merge :: "worksheet \<Rightarrow> worksheet \<Rightarrow> bool \<Rightarrow> error + worksheet" where
  "merge destination source ignore_blanks =
     (let (dst_classes, destination) = get_class_names destination;
          src_classes = fst (get_class_names source);
          (dst_records, destination) = get_record_names destination;
          (src_dst_map, destination) = map_classes destination dst_classes src_classes
      in foldE (\<lambda>r destination.
                  merge_row ignore_blanks dst_records src_dst_map
                    (map (\<lambda>c. cells source (r, c)) [1..<max_column source + 1]) destination)
               [2..<max_row source + 1] destination)"

section \<open>Column normalizer (\<^verbatim>\<open>xutils.column_swap\<close>)\<close>

text \<open>
  The indices are Python integers. The first test returns the sheet of an empty table for any
  positive indices; its conjunction reads the corner cell only when the tests before it hold.
\<close>

definition column_swap :: "worksheet \<Rightarrow> int \<Rightarrow> int \<Rightarrow> error + worksheet" where
  "column_swap sheet i j =
     (let (empty, sheet) =
            (if i > 0 \<and> j > 0 \<and> max_column sheet = 1 \<and> max_row sheet = 1
             then (let (v, sheet) = ws_cell sheet 1 1 in (v = None, sheet))
             else (False, sheet))
      in
        if empty then Inr sheet
        else if i < 1 \<or> j < 1 then
          Inl (InvalidCellIndex ''column_swap'' (min i j) 1 (max_column sheet) (max_row sheet))
        else if i > int (max_column sheet) \<or> j > int (max_column sheet) then
          Inl (InvalidCellIndex ''column_swap'' (max i j) 1 (max_column sheet) (max_row sheet))
        else if i = j then Inr sheet
        else
          Inr (fold (\<lambda>r sheet.
                       let vi = cells sheet (r, nat i); vj = cells sheet (r, nat j)
                       in ws_assign (ws_assign sheet r (nat i) vj) r (nat j) vi)
                    [1..<max_row sheet + 1] sheet))"

section \<open>Consistency verifier (\<^verbatim>\<open>xutils.clear_found_values\<close>, \<^verbatim>\<open>has_empty_data_set\<close>)\<close>

text \<open>A list comprehension whose element function can raise.\<close>

fun mapE :: "('a \<Rightarrow> 'e + 'b) \<Rightarrow> 'a list \<Rightarrow> 'e + 'b list" where
  "mapE f [] = Inr []"
| "mapE f (x # xs) =
     (case f x of
        Inl e \<Rightarrow> Inl e
      | Inr y \<Rightarrow> (case mapE f xs of Inl e \<Rightarrow> Inl e | Inr ys \<Rightarrow> Inr (y # ys)))"

text \<open>
  \<^verbatim>\<open>str.strip()\<close> removes white space at both ends; among 8-bit characters these are
  the code points 9 to 13, 28 to 32, 133 and 160.
\<close>

definition is_space :: "char \<Rightarrow> bool" where
  "is_space c =
     (let n = (of_char c :: nat)
      in (9 \<le> n \<and> n \<le> 13) \<or> (28 \<le> n \<and> n \<le> 32) \<or> n = 133 \<or> n = 160)"

definition strip :: "string \<Rightarrow> string" where
  "strip s = rev (dropWhile is_space (rev (dropWhile is_space s)))"

text \<open>
  \<^verbatim>\<open>trim_class_name\<close>; a number has no \<^verbatim>\<open>strip\<close>, which raises AttributeError.
\<close>

definition trim_class_name :: "val option \<Rightarrow> error + val option" where
  "trim_class_name value =
     (case value of
        None \<Rightarrow> Inr None
      | Some (Str s) \<Rightarrow> Inr (Some (Str (strip s)))
      | Some (Num n) \<Rightarrow> Inl AttributeError)"

text \<open>
  \<^verbatim>\<open>math.isclose(a, b, rel_tol=1e-12, abs_tol=1e-12)\<close> is a function of Python's library
  that computes with floats. An argument that is not a number raises TypeError. On two
  numbers it converts both to floats, raising OverflowError for an integer that is too
  large, and compares them in floating point arithmetic. The model says nothing about that
  arithmetic: the outcome on two numbers is the parameter \<open>close\<close>, with \<open>None\<close> for the
  OverflowError.
\<close>

definition isclose :: "(rat \<Rightarrow> rat \<Rightarrow> bool option) \<Rightarrow> val \<Rightarrow> val \<Rightarrow> error + bool" where
  "isclose close a b =
     (case (a, b) of
        (Num x, Num y) \<Rightarrow> (case close x y of None \<Rightarrow> Inl OverflowError | Some c \<Rightarrow> Inr c)
      | _ \<Rightarrow> Inl TypeError)"

text \<open>
  The body of the two nested loops of \<^verbatim>\<open>clear_found_values\<close>, for the source cell
  \<open>(src_row, src_col)\<close>; \<open>record_map\<close> and \<open>classes_map\<close> are the lists
  \<^verbatim>\<open>src_dst_record_map\<close> and \<^verbatim>\<open>src_dst_classes_map\<close>. A raise carries the destination
  as it is at that moment, since the source changes it in place.
\<close>

definition clear_cell ::
  "(rat \<Rightarrow> rat \<Rightarrow> bool option) \<Rightarrow> worksheet \<Rightarrow> nat list \<Rightarrow> nat list \<Rightarrow> nat \<Rightarrow> nat \<Rightarrow>
   worksheet \<Rightarrow> (error \<times> worksheet) + worksheet" where
  "clear_cell close source record_map classes_map src_row src_col destination =
     (case cells source (src_row, src_col) of
        None \<Rightarrow> Inr destination
      | Some src_val \<Rightarrow>
          (let dst_row = record_map ! (src_row - 1);
               dst_col = classes_map ! (src_col - 1);
               (dst_val, destination) = ws_cell destination dst_row dst_col
           in case dst_val of
                None \<Rightarrow>
                  Inl (ConsistencyError ''Source data not found in destination.''
                         [CellContext (cells source (src_row, 1)) src_row
                            (cells source (1, src_col)) src_col src_val
                            (cells destination (dst_row, 1)) dst_row
                            (cells destination (1, dst_col)) dst_col None],
                       destination)
              | Some d \<Rightarrow>
                  (case isclose close src_val d of
                     Inl e \<Rightarrow> Inl (e, destination)
                   | Inr close \<Rightarrow>
                       if \<not> close then
                         Inl (ConsistencyError ''Source data differs for destination.''
                                [CellContext (cells source (src_row, 1)) src_row
                                   (cells source (1, src_col)) src_col src_val
                                   (cells destination (dst_row, 1)) dst_row
                                   (cells destination (1, dst_col)) dst_col (Some d)],
                              destination)
                       else Inr (ws_assign destination dst_row dst_col None))))"

text \<open>
  The body of \<^verbatim>\<open>for src_row in range(2, source.max_row + 1)\<close>, and the loop itself.
\<close>

definition clear_row ::
  "(rat \<Rightarrow> rat \<Rightarrow> bool option) \<Rightarrow> worksheet \<Rightarrow> bool \<Rightarrow> nat list \<Rightarrow> nat list \<Rightarrow> nat \<Rightarrow>
   worksheet \<Rightarrow> (error \<times> worksheet) + worksheet" where
  "clear_row close source ignore_blanks record_map classes_map src_row destination =
     (if cells source (src_row, 1) = None then Inr destination
      else
        case (if ignore_blanks then is_blank (cells source (src_row, 1)) else Inr False) of
          Inl e \<Rightarrow> Inl (e, destination)
        | Inr b \<Rightarrow>
            if b then Inr destination
            else foldE (clear_cell close source record_map classes_map src_row)
                       [2..<max_column source + 1] destination)"

definition clear_rows ::
  "(rat \<Rightarrow> rat \<Rightarrow> bool option) \<Rightarrow> worksheet \<Rightarrow> bool \<Rightarrow> nat list \<Rightarrow> nat list \<Rightarrow> worksheet \<Rightarrow>
   (error \<times> worksheet) + worksheet" where
  "clear_rows close source ignore_blanks record_map classes_map destination =
     foldE (clear_row close source ignore_blanks record_map classes_map)
           [2..<max_row source + 1] destination"

text \<open>
  The inner \<^verbatim>\<open>mapper\<close> of \<^verbatim>\<open>clear_found_values\<close>: the position, or the value not found
  (its test of \<^verbatim>\<open>str is None\<close> never holds, as in \<^verbatim>\<open>merge\<close>).
\<close>

definition lookup :: "val option list \<Rightarrow> val option \<Rightarrow> val option + nat" where
  "lookup dst_items value =
     (case list_index dst_items value of None \<Rightarrow> Inl value | Some k \<Rightarrow> Inr (k + 1))"

text \<open>
  The two lists \<^verbatim>\<open>src_dst_record_map\<close> and \<^verbatim>\<open>src_dst_classes_map\<close>. For the first, the
  blank records of the source are set to \<^verbatim>\<open>None\<close> in the list of its record names when
  \<open>ignore_blanks\<close> holds. Any exception in a lookup, that of \<^verbatim>\<open>strip\<close> on a number included,
  becomes the ConsistencyError "Source data not found in destination."
\<close>

definition src_dst_record_map ::
  "val option list \<Rightarrow> val option list \<Rightarrow> bool \<Rightarrow> error + nat list" where
  "src_dst_record_map dst_records src_records ignore_blanks =
     (case (if ignore_blanks
            then mapE (\<lambda>r. case is_blank r of
                              Inl e \<Rightarrow> Inl e
                            | Inr b \<Rightarrow> Inr (if b then None else r)) src_records
            else Inr src_records) of
        Inl e \<Rightarrow> Inl e
      | Inr src_records \<Rightarrow>
          (case mapE (lookup dst_records) src_records of
             Inl v \<Rightarrow>
               Inl (ConsistencyError ''Source data not found in destination.'' [DataRecord v])
           | Inr m \<Rightarrow> Inr m))"

definition src_dst_classes_map ::
  "val option list \<Rightarrow> val option list \<Rightarrow> bool \<Rightarrow> error + nat list" where
  "src_dst_classes_map dst_classes src_classes trim_class_names =
     (case mapE (\<lambda>value.
                   case (if \<not> trim_class_names then Inr value else trim_class_name value) of
                     Inl e \<Rightarrow> Inl (LipidClassNotText value)
                   | Inr v \<Rightarrow>
                       (case lookup dst_classes v of
                          Inl v \<Rightarrow> Inl (LipidClass v)
                        | Inr k \<Rightarrow> Inr k))
                src_classes of
        Inl d \<Rightarrow> Inl (ConsistencyError ''Source data not found in destination.'' [d])
      | Inr m \<Rightarrow> Inr m)"

text \<open>
  \<^verbatim>\<open>clear_found_values\<close>: the names are read, both lists are built, and only then the loops
  run.
\<close>

definition clear_found_values ::
  "(rat \<Rightarrow> rat \<Rightarrow> bool option) \<Rightarrow> worksheet \<Rightarrow> worksheet \<Rightarrow> bool \<Rightarrow> bool \<Rightarrow>
   (error \<times> worksheet) + worksheet" where
  "clear_found_values close destination source ignore_blanks trim_class_names =
     (let (dst_records, destination) = get_record_names destination;
          src_records = fst (get_record_names source);
          (dst_classes, destination) = get_class_names destination;
          src_classes = fst (get_class_names source)
      in
        case src_dst_record_map dst_records src_records ignore_blanks of
          Inl e \<Rightarrow> Inl (e, destination)
        | Inr record_map \<Rightarrow>
            (case src_dst_classes_map dst_classes src_classes trim_class_names of
               Inl e \<Rightarrow> Inl (e, destination)
             | Inr classes_map \<Rightarrow>
                 clear_rows close source ignore_blanks record_map classes_map destination))"


text \<open>
  The errors that the loops of \<^verbatim>\<open>clear_found_values\<close> can raise: a ConsistencyError whose
  details describe a cell, or an exception of a comparison or of \<^verbatim>\<open>is_blank\<close>.
\<close>

definition cell_error :: "error \<Rightarrow> bool" where
  "cell_error e \<longleftrightarrow>
     (case e of
        ConsistencyError m ds \<Rightarrow>
          (case ds of [CellContext a b c d e f g h i j] \<Rightarrow> True | _ \<Rightarrow> False)
      | TypeError \<Rightarrow> True
      | AttributeError \<Rightarrow> True
      | OverflowError \<Rightarrow> True
      | _ \<Rightarrow> False)"

text \<open>What a duplicate scan without findings has established.\<close>

definition no_dup_from :: "(val \<Rightarrow> error + bool) \<Rightarrow> val option list \<Rightarrow> nat \<Rightarrow> bool" where
  "no_dup_from skip names i \<longleftrightarrow>
     (\<forall>x. names ! i = Some x \<longrightarrow>
        (\<exists>b. skip x = Inr b) \<and>
        (skip x = Inr False \<longrightarrow> (\<forall>j. i < j \<and> j < length names \<longrightarrow> names ! j \<noteq> Some x)))"

definition no_data_without_label :: "worksheet \<Rightarrow> bool" where
  "no_data_without_label sh \<longleftrightarrow>
     (\<forall>r c. 2 \<le> r \<and> r \<le> max_row sh \<and> 2 \<le> c \<and> c \<le> max_column sh \<and> cells sh (r, c) \<noteq> None
        \<longrightarrow> cells sh (r, 1) \<noteq> None \<and> cells sh (1, c) \<noteq> None)"

definition classes_of :: "worksheet \<Rightarrow> val option list" where
  "classes_of sh = map (\<lambda>c. cells sh (1, c)) [1..<max_column sh + 1]"

definition records_of :: "worksheet \<Rightarrow> val option list" where
  "records_of sh = map (\<lambda>r. cells sh (r, 1)) [1..<max_row sh + 1]"

definition skip_blank :: "bool \<Rightarrow> val \<Rightarrow> error + bool" where
  "skip_blank ib x = (if ib then is_blank (Some x) else Inr False)"

text \<open>
  How a check across workbooks without findings relates the context before and after:
  nothing is lost, every key of \<open>K\<close> is bound to an entry of this workbook, and every binding
  is an old one or one of this workbook for a key of \<open>K\<close>.
\<close>

definition ctx_step :: "string \<Rightarrow> (string \<times> val \<times> val) set \<Rightarrow> validation_context \<Rightarrow> validation_context \<Rightarrow> bool"
  where
  "ctx_step name K ctx ctx' \<longleftrightarrow>
     (\<forall>k v. ctx k = Some v \<longrightarrow> ctx' k = Some v) \<and>
     (\<forall>k\<in>K. \<exists>a b. ctx' k = Some (name, a, b)) \<and>
     (\<forall>k nm a b. ctx' k = Some (nm, a, b) \<longrightarrow> ctx k = Some (nm, a, b) \<or> (nm = name \<and> k \<in> K))"

text \<open>The keys that the check across workbooks enters for a sheet.\<close>

definition keys_of :: "bool \<Rightarrow> worksheet \<Rightarrow> (string \<times> val \<times> val) set" where
  "keys_of ib sh =
     {(title sh, rl, cl) | rl cl i j.
        i < max_row sh \<and> records_of sh ! i = Some rl \<and> skip_blank ib rl = Inr False \<and>
        j < max_column sh \<and> classes_of sh ! j = Some cl}"

definition valid_sheet :: "bool \<Rightarrow> worksheet \<Rightarrow> bool" where
  "valid_sheet ib sh \<longleftrightarrow>
     cells sh (1, 1) = None
     \<and> (\<forall>i<max_column sh. no_dup_from (\<lambda>x. Inr False) (classes_of sh) i)
     \<and> (\<forall>i<max_row sh. no_dup_from (skip_blank ib) (records_of sh) i)
     \<and> (\<forall>i<max_row sh. \<exists>b. is_blank (records_of sh ! i) = Inr b)
     \<and> no_data_without_label sh"

text \<open>What \<open>map_classes\<close> does to the destination and which columns it returns.\<close>

definition map_classes_post ::
  "worksheet \<Rightarrow> val option list \<Rightarrow> val option list \<Rightarrow> nat option list \<Rightarrow> worksheet \<Rightarrow> bool" where
  "map_classes_post D dcl vs ks D1 \<longleftrightarrow>
     length ks = length vs \<and> max_row D1 = max_row D \<and> title D1 = title D
     \<and> max_column D \<le> max_column D1
     \<and> (\<forall>r c. r \<noteq> 1 \<or> c \<le> max_column D \<or> max_column D1 < c \<longrightarrow>
            cells D1 (r, c) = cells D (r, c))
     \<and> (\<forall>i<length vs. \<forall>k. list_index dcl (vs ! i) = Some k \<longrightarrow> ks ! i = Some (k + 1))
     \<and> (\<forall>i<length vs. list_index dcl (vs ! i) = None \<longrightarrow>
           (\<exists>c. ks ! i = Some c \<and> max_column D < c \<and> c \<le> max_column D1
                \<and> (vs ! i \<noteq> None \<longrightarrow> cells D1 (1, c) = vs ! i)))
     \<and> (\<forall>c. max_column D < c \<and> c \<le> max_column D1 \<longrightarrow>
           (\<exists>i<length vs. list_index dcl (vs ! i) = None \<and> ks ! i = Some c))
     \<and> (\<forall>i j. i < j \<and> j < length vs \<and> list_index dcl (vs ! i) = None
              \<and> list_index dcl (vs ! j) = None \<longrightarrow> ks ! i \<noteq> ks ! j)"

text \<open>
  The value in column \<open>c\<close> of the destination row after the inner loop of \<open>merge_row\<close> has
  run over the source columns below \<open>n\<close>: the last write into \<open>c\<close> wins.
\<close>

fun written :: "nat option list \<Rightarrow> val option list \<Rightarrow> nat \<Rightarrow> nat \<Rightarrow> val option \<Rightarrow> val option"
  where
  "written ks row 0 c base = base"
| "written ks row (Suc n) c base =
     (if 1 \<le> n \<and> ks ! n = Some c \<and> row ! n \<noteq> None then row ! n
      else written ks row n c base)"

definition write_row ::
  "nat option list \<Rightarrow> val option list \<Rightarrow> nat \<Rightarrow> nat \<Rightarrow> worksheet \<Rightarrow> worksheet" where
  "write_row ks row irow n d =
     fold (\<lambda>icol destination.
             case ks ! icol of
               None \<Rightarrow> destination
             | Some c \<Rightarrow> ws_cell_set destination irow c (row ! icol))
          [1..<n] d"

text \<open>
  A source row that \<^verbatim>\<open>merge\<close> and \<^verbatim>\<open>clear_found_values\<close> process: it has a record name, which
  is not a blank when blanks are ignored.
\<close>

definition act :: "bool \<Rightarrow> worksheet \<Rightarrow> nat \<Rightarrow> bool" where
  "act ib S q \<longleftrightarrow> (\<exists>l. cells S (q, 1) = Some l \<and> skip_blank ib l = Inr False)"

text \<open>
  What every destination of a merge satisfies: openpyxl's bounds, an empty corner, a class
  name in every column and a processed record name in every row from the second on, and no
  name twice.
\<close>

definition merged :: "bool \<Rightarrow> worksheet \<Rightarrow> bool" where
  "merged ib D \<longleftrightarrow>
     sheet_ok D \<and> cells D (1, 1) = None
     \<and> (\<forall>c. 2 \<le> c \<and> c \<le> max_column D \<longrightarrow> cells D (1, c) \<noteq> None)
     \<and> (\<forall>c c'. 2 \<le> c \<and> c < c' \<and> c' \<le> max_column D \<longrightarrow> cells D (1, c) \<noteq> cells D (1, c'))
     \<and> (\<forall>r. 2 \<le> r \<and> r \<le> max_row D \<longrightarrow> act ib D r)
     \<and> (\<forall>r r'. 2 \<le> r \<and> r < r' \<and> r' \<le> max_row D \<longrightarrow> cells D (r, 1) \<noteq> cells D (r', 1))"

text \<open>The header of the destination after the classes of the source have been mapped.\<close>

definition header_post ::
  "worksheet \<Rightarrow> worksheet \<Rightarrow> nat option list \<Rightarrow> worksheet \<Rightarrow> bool" where
  "header_post D S ks D1 \<longleftrightarrow>
     length ks = max_column S \<and> max_row D1 = max_row D \<and> title D1 = title D
     \<and> max_column D \<le> max_column D1
     \<and> (\<forall>r c. r \<noteq> 1 \<or> c \<le> max_column D \<or> max_column D1 < c \<longrightarrow>
            cells D1 (r, c) = cells D (r, c))
     \<and> (\<forall>k. 1 \<le> k \<and> k \<le> max_column S \<longrightarrow>
            (\<exists>c. ks ! (k - 1) = Some c \<and> 1 \<le> c \<and> c \<le> max_column D1
                 \<and> cells D1 (1, c) = cells S (1, k)))
     \<and> cells D1 (1, 1) = None
     \<and> (\<forall>c. 2 \<le> c \<and> c \<le> max_column D1 \<longrightarrow> cells D1 (1, c) \<noteq> None)
     \<and> (\<forall>c c'. 2 \<le> c \<and> c < c' \<and> c' \<le> max_column D1 \<longrightarrow> cells D1 (1, c) \<noteq> cells D1 (1, c'))
     \<and> (\<forall>c. max_column D < c \<and> c \<le> max_column D1 \<longrightarrow>
            (\<exists>k. 2 \<le> k \<and> k \<le> max_column S \<and> cells S (1, k) = cells D1 (1, c)))"

text \<open>
  The invariant of the loop over the source rows in \<^verbatim>\<open>merge\<close>: \<open>Dc\<close> is the destination
  when the rows below \<open>r\<close> have been processed, \<open>D\<close> the destination at the call and \<open>D1\<close>
  the one after the mapping of the classes.
\<close>

definition rows_inv ::
  "bool \<Rightarrow> worksheet \<Rightarrow> worksheet \<Rightarrow> worksheet \<Rightarrow> nat \<Rightarrow> worksheet \<Rightarrow> bool" where
  "rows_inv ib D D1 S r Dc \<longleftrightarrow>
     title Dc = title D1 \<and> max_column Dc = max_column D1 \<and> max_row D \<le> max_row Dc
     \<and> (\<forall>c. cells Dc (1, c) = cells D1 (1, c))
     \<and> (\<forall>r' c'. cells Dc (r', c') \<noteq> None \<longrightarrow>
            1 \<le> r' \<and> r' \<le> max_row Dc \<and> 1 \<le> c' \<and> c' \<le> max_column Dc)
     \<and> (\<forall>r'. r' \<le> max_row D \<longrightarrow> cells Dc (r', 1) = cells D (r', 1))
     \<and> (\<forall>r'. max_row D < r' \<and> r' \<le> max_row Dc \<longrightarrow>
            (\<exists>q. 2 \<le> q \<and> q < r \<and> act ib S q \<and> cells Dc (r', 1) = cells S (q, 1)
                 \<and> cells S (q, 1) \<notin> set (records_of D)))
     \<and> (\<forall>r1 r2. max_row D < r1 \<and> r1 < r2 \<and> r2 \<le> max_row Dc \<longrightarrow>
            cells Dc (r1, 1) \<noteq> cells Dc (r2, 1))
     \<and> (\<forall>q. 2 \<le> q \<and> q < r \<and> act ib S q \<longrightarrow>
            (\<exists>r'. 2 \<le> r' \<and> r' \<le> max_row Dc \<and> cells Dc (r', 1) = cells S (q, 1)))
     \<and> (\<forall>r' c' q k. 2 \<le> r' \<and> r' \<le> max_row Dc \<and> 2 \<le> c' \<and> c' \<le> max_column Dc
            \<and> 2 \<le> q \<and> q < r \<and> act ib S q \<and> cells S (q, 1) = cells Dc (r', 1)
            \<and> 2 \<le> k \<and> k \<le> max_column S \<and> cells S (1, k) = cells Dc (1, c')
            \<and> cells S (q, k) \<noteq> None \<longrightarrow> cells Dc (r', c') = cells S (q, k))
     \<and> (\<forall>r' c'. 2 \<le> r' \<and> r' \<le> max_row Dc \<and> 2 \<le> c' \<and> c' \<le> max_column Dc
            \<and> \<not> (\<exists>q k. 2 \<le> q \<and> q < r \<and> act ib S q \<and> cells S (q, 1) = cells Dc (r', 1)
                    \<and> 2 \<le> k \<and> k \<le> max_column S \<and> cells S (1, k) = cells Dc (1, c')
                    \<and> cells S (q, k) \<noteq> None)
            \<longrightarrow> cells Dc (r', c') = cells D (r', c'))"

text \<open>
  The content of a table by names: the record \<open>rl\<close> has the value \<open>v\<close> in the class \<open>cl\<close>.
  Only the rows that the merger and the verifier process count.
\<close>

definition holds :: "bool \<Rightarrow> worksheet \<Rightarrow> val \<Rightarrow> val \<Rightarrow> val \<Rightarrow> bool" where
  "holds ib X rl cl v \<longleftrightarrow>
     (\<exists>r c. 2 \<le> r \<and> r \<le> max_row X \<and> 2 \<le> c \<and> c \<le> max_column X
            \<and> cells X (r, 1) = Some rl \<and> skip_blank ib rl = Inr False
            \<and> cells X (1, c) = Some cl \<and> cells X (r, c) = Some v)"

definition rlabels :: "bool \<Rightarrow> worksheet \<Rightarrow> val set" where
  "rlabels ib X = {l. \<exists>r. 2 \<le> r \<and> r \<le> max_row X \<and> cells X (r, 1) = Some l
                        \<and> skip_blank ib l = Inr False}"

definition clabels :: "worksheet \<Rightarrow> val set" where
  "clabels X = {l. \<exists>c. 2 \<le> c \<and> c \<le> max_column X \<and> cells X (1, c) = Some l}"

text \<open>
  The set of (record name, class name, value) triples of a table, as the rows and columns
  from the second on give them.
\<close>

definition cell_triple :: "worksheet \<Rightarrow> nat \<Rightarrow> nat \<Rightarrow> (val \<times> val \<times> val) list" where
  "cell_triple X r c =
     (case cells X (r, 1) of
        None \<Rightarrow> []
      | Some rl \<Rightarrow>
          (case cells X (1, c) of
             None \<Rightarrow> []
           | Some cl \<Rightarrow> (case cells X (r, c) of None \<Rightarrow> [] | Some v \<Rightarrow> [(rl, cl, v)])))"

definition triples :: "worksheet \<Rightarrow> (val \<times> val \<times> val) set" where
  "triples X =
     set (concat (map (\<lambda>r. concat (map (cell_triple X r) [2..<max_column X + 1]))
                      [2..<max_row X + 1]))"




section \<open>The merge and the verification of \<^verbatim>\<open>process\<close> (\<^verbatim>\<open>lipimerge/process.py\<close>)\<close>
















section \<open>Basic facts about worksheets and loops\<close>

lemma ws_touch_in_bounds: "r \<le> max_row sh \<Longrightarrow> c \<le> max_column sh \<Longrightarrow> ws_touch sh r c = sh"
  by (simp add: ws_touch_def max_def)

lemma ws_cell_in_bounds:
  "r \<le> max_row sh \<Longrightarrow> c \<le> max_column sh \<Longrightarrow> ws_cell sh r c = (cells sh (r, c), sh)"
  by (simp add: ws_cell_def ws_touch_in_bounds)

lemma read_cells_in_bounds:
  "\<forall>p\<in>set ps. fst p \<le> max_row sh \<and> snd p \<le> max_column sh \<Longrightarrow>
   read_cells sh ps = (map (cells sh) ps, sh)"
  by (induction ps) (auto simp: ws_cell_in_bounds)

lemma get_class_names_eq:
  "1 \<le> max_row sh \<Longrightarrow>
   get_class_names sh = (map (\<lambda>c. cells sh (1, c)) [1..<max_column sh + 1], sh)"
  by (simp add: get_class_names_def read_cells_in_bounds comp_def)

lemma get_record_names_eq:
  "1 \<le> max_column sh \<Longrightarrow>
   get_record_names sh = (map (\<lambda>r. cells sh (r, 1)) [1..<max_row sh + 1], sh)"
  by (simp add: get_record_names_def read_cells_in_bounds comp_def)

lemma foldE_append:
  "foldE f (xs @ ys) s = (case foldE f xs s of Inl e \<Rightarrow> Inl e | Inr s' \<Rightarrow> foldE f ys s')"
  by (induction xs arbitrary: s) (auto split: sum.splits)

lemma foldE_Inl_cases:
  assumes "foldE f xs s = Inl e"
  shows "\<exists>x s'. x \<in> set xs \<and> f x s' = Inl e"
  using assms
proof (induction xs arbitrary: s)
  case Nil
  then show ?case by simp
next
  case (Cons a xs)
  show ?case
  proof (cases "f a s")
    case (Inl e')
    with Cons.prems show ?thesis by auto
  next
    case (Inr s1)
    with Cons.prems have "foldE f xs s1 = Inl e" by simp
    from Cons.IH[OF this] show ?thesis by auto
  qed
qed

section \<open>Properties of the sorters\<close>

lemma py_index_nat [simp]: "k < length xs \<Longrightarrow> py_index xs (int k) = Some k"
  by (simp add: py_index_def)

lemma list_less_nat:
  "a < length xs \<Longrightarrow> b < length xs \<Longrightarrow> list_less xs (int a) (int b) = Inr (xs ! a < xs ! b)"
  by (simp add: list_less_def)

lemma list_swap_nat:
  "a < length xs \<Longrightarrow> b < length xs \<Longrightarrow>
   list_swap xs (int a) (int b) = Inr ((xs[a := xs ! b])[b := xs ! a])"
  by (simp add: list_swap_def)

lemma find_min_aux:
  fixes xs :: "('a::linorder) list"
  assumes "j \<le> length xs" "b \<le> r" "r < j"
    and "\<forall>k. b \<le> k \<and> k < j \<longrightarrow> xs ! r \<le> xs ! k"
  shows "\<exists>m. foldE (\<lambda>i result. case list_less xs i result of
                          Inl e \<Rightarrow> Inl e
                        | Inr b \<Rightarrow> Inr (if b then i else result))
           [int j..int (length xs) - 1] (int r) = Inr (int m)
         \<and> b \<le> m \<and> m < length xs \<and> (\<forall>k. b \<le> k \<and> k < length xs \<longrightarrow> xs ! m \<le> xs ! k)"
  using assms
proof (induction "length xs - j" arbitrary: j r)
  case 0
  then have "j = length xs" by simp
  with 0 show ?case by auto
next
  case (Suc d)
  then have jl: "j < length xs" by simp
  then have up: "[int j..int (length xs) - 1] = int j # [int (Suc j)..int (length xs) - 1]"
    using upto_rec1[of "int j" "int (length xs) - 1"] by (simp add: add.commute)
  have rl: "r < length xs" using Suc.prems jl by simp
  let ?r' = "if xs ! j < xs ! r then j else r"
  have d: "d = length xs - Suc j" using Suc.hyps by simp
  have 1: "Suc j \<le> length xs" using jl by simp
  have 2: "b \<le> ?r'" using Suc.prems by auto
  have 3: "?r' < Suc j" using Suc.prems by auto
  have 4: "\<forall>k. b \<le> k \<and> k < Suc j \<longrightarrow> xs ! ?r' \<le> xs ! k"
  proof (intro allI impI)
    fix k assume k: "b \<le> k \<and> k < Suc j"
    show "xs ! ?r' \<le> xs ! k"
    proof (cases "k = j")
      case True then show ?thesis by auto
    next
      case False
      with k have "k < j" by simp
      with k Suc.prems(4) have "xs ! r \<le> xs ! k" by simp
      then show ?thesis by auto
    qed
  qed
  from Suc.hyps(1)[OF d 1 2 3 4] obtain m where
    m: "foldE (\<lambda>i result. case list_less xs i result of
                          Inl e \<Rightarrow> Inl e
                        | Inr b \<Rightarrow> Inr (if b then i else result))
           [int (Suc j)..int (length xs) - 1] (int ?r') = Inr (int m)"
      "b \<le> m" "m < length xs" "\<forall>k. b \<le> k \<and> k < length xs \<longrightarrow> xs ! m \<le> xs ! k"
    by blast
  show ?case
    apply (rule exI[of _ m])
    using m jl rl by (auto simp add: up list_less_nat simp del: of_nat_Suc split: if_splits)
qed

lemma find_min_list:
  fixes xs :: "('a::linorder) list"
  assumes "b < length xs"
  shows "\<exists>m. find_min list_less xs (int (length xs)) (int b) = Inr (int m)
         \<and> b \<le> m \<and> m < length xs \<and> (\<forall>k. b \<le> k \<and> k < length xs \<longrightarrow> xs ! m \<le> xs ! k)"
proof -
  have "\<forall>k. b \<le> k \<and> k < Suc b \<longrightarrow> xs ! b \<le> xs ! k"
    by (auto simp: less_Suc_eq_le)
  from find_min_aux[of "Suc b" xs b b, OF _ _ _ this] assms
  show ?thesis by (simp add: find_min_def add.commute)
qed

lemma step_list:
  fixes xs :: "('a::linorder) list"
  assumes "b < length xs"
  shows "\<exists>m. selection_sort_step list_less list_swap xs (int (length xs)) (int b)
             = Inr ((xs[b := xs ! m])[m := xs ! b])
         \<and> b \<le> m \<and> m < length xs \<and> (\<forall>k. b \<le> k \<and> k < length xs \<longrightarrow> xs ! m \<le> xs ! k)"
proof -
  from find_min_list[OF assms] obtain m where
    m: "find_min list_less xs (int (length xs)) (int b) = Inr (int m)"
       "b \<le> m" "m < length xs" "\<forall>k. b \<le> k \<and> k < length xs \<longrightarrow> xs ! m \<le> xs ! k"
    by blast
  show ?thesis
    apply (rule exI[of _ m])
    using m assms by (simp add: selection_sort_step_def list_swap_nat)
qed

lemma steps_aux:
  fixes ys :: "('a::linorder) list"
  assumes "k \<le> length ys"
    and "\<forall>i j. i \<le> j \<and> j < k \<longrightarrow> ys ! i \<le> ys ! j"
    and "\<forall>i j. i < k \<and> k \<le> j \<and> j < length ys \<longrightarrow> ys ! i \<le> ys ! j"
  shows "\<exists>zs. foldE (\<lambda>begin c. selection_sort_step list_less list_swap c (int (length ys)) begin)
               [int k..int (length ys) - 1] ys = Inr zs
          \<and> sorted zs \<and> mset zs = mset ys"
  using assms
proof (induction "length ys - k" arbitrary: k ys)
  case 0
  then have "k = length ys" by simp
  with 0 have "sorted ys" by (simp add: sorted_iff_nth_mono)
  with \<open>k = length ys\<close> show ?case by simp
next
  case (Suc d)
  then have kl: "k < length ys" by simp
  have up: "[int k..int (length ys) - 1] = int k # [int (Suc k)..int (length ys) - 1]"
    using upto_rec1[of "int k" "int (length ys) - 1"] kl by (simp add: add.commute)
  from step_list[OF kl] obtain m where
    m: "selection_sort_step list_less list_swap ys (int (length ys)) (int k)
             = Inr ((ys[k := ys ! m])[m := ys ! k])"
       "k \<le> m" "m < length ys" "\<forall>j. k \<le> j \<and> j < length ys \<longrightarrow> ys ! m \<le> ys ! j"
    by blast
  let ?ys = "(ys[k := ys ! m])[m := ys ! k]"
  have len: "length ?ys = length ys" by simp
  have nth: "\<And>i. i < length ys \<Longrightarrow> ?ys ! i = (if i = m then ys ! k else if i = k then ys ! m else ys ! i)"
    by (simp add: nth_list_update)
  have d: "d = length ?ys - Suc k" using Suc.hyps by simp
  have 1: "Suc k \<le> length ?ys" using kl by simp
  have 2: "\<forall>i j. i \<le> j \<and> j < Suc k \<longrightarrow> ?ys ! i \<le> ?ys ! j"
  proof (intro allI impI)
    fix i j assume a: "i \<le> j \<and> j < Suc k"
    then have "i < length ys" "j < length ys" using kl by auto
    then show "?ys ! i \<le> ?ys ! j"
      using a m(2,3,4) Suc.prems(2,3) kl
      by (auto simp: nth less_Suc_eq)
  qed
  have 3: "\<forall>i j. i < Suc k \<and> Suc k \<le> j \<and> j < length ?ys \<longrightarrow> ?ys ! i \<le> ?ys ! j"
  proof (intro allI impI)
    fix i j assume a: "i < Suc k \<and> Suc k \<le> j \<and> j < length ?ys"
    then have "i < length ys" "j < length ys" using kl by auto
    then show "?ys ! i \<le> ?ys ! j"
      using a m(2,3,4) Suc.prems(3) kl
      by (auto simp: nth less_Suc_eq)
  qed
  from Suc.hyps(1)[OF d 1 2 3] obtain zs where
    zs: "foldE (\<lambda>begin c. selection_sort_step list_less list_swap c (int (length ?ys)) begin)
               [int (Suc k)..int (length ?ys) - 1] ?ys = Inr zs"
        "sorted zs" "mset zs = mset ?ys"
    by blast
  have ms: "mset ?ys = mset ys"
    using mset_swap[of m ys k] kl m(3) by simp
  show ?case
    apply (rule exI[of _ zs])
    using zs m(1) ms by (simp add: up del: of_nat_Suc)
qed

lemma steps_list:
  fixes xs :: "('a::linorder) list"
  shows "selection_sort_steps list_less list_swap xs (int (length xs)) = Inr (sort xs)"
proof -
  from steps_aux[of 0 xs] obtain zs where
    zs: "foldE (\<lambda>begin c. selection_sort_step list_less list_swap c (int (length xs)) begin)
               [0..int (length xs) - 1] xs = Inr zs" "sorted zs" "mset zs = mset xs"
    by auto
  then have "sort xs = zs" by (simp add: properties_for_sort)
  with zs(1) show ?thesis by (simp add: selection_sort_steps_def)
qed

text \<open>
  C8, as stated, fails in its last part: a single \<^verbatim>\<open>selection_sort_step\<close> on an empty
  range raises. With \<open>begin = end = len\<close> the inner \<^verbatim>\<open>find_min\<close> returns \<open>begin\<close>, and
  \<^verbatim>\<open>swap(container, begin, begin)\<close> indexes the list at its length: on the empty list
  with \<open>begin = end = 0\<close>, and on a list of two elements with \<open>begin = end = 2\<close>, the step
  raises IndexError. (The docstring asks for \<open>begin\<close> from 0 to \<open>len - 1\<close>, so that the
  steps of a sort never meet an empty range.)
\<close>

theorem selection_sort_step_empty_range_raises:
  "selection_sort_step list_less list_swap ([] :: int list) 0 0 = Inl IndexError
   \<and> selection_sort_step list_less list_swap [1, 2 :: int] 2 2 = Inl IndexError"
  by (simp add: selection_sort_step_def find_min_def list_swap_def py_index_def)

text \<open>
  C8, as amended. For every finite sequence of totally ordered keys, one
  \<^verbatim>\<open>selection_sort_step\<close> per \<open>begin\<close> from 0 to \<open>len - 1\<close>, each with \<open>end = len\<close> and with
  element comparison and element exchange as \<open>less\<close> and \<open>swap\<close>, returns without an error
  and leaves the reference sort of the sequence (sorted, with the same elements in the same
  numbers). A single step at a position \<open>begin\<close> of the sequence, the last one with its
  one-element range included, returns without an error, having exchanged the element at
  \<open>begin\<close> with a least element of the range from \<open>begin\<close> to the end. On the empty and
  on a one-element sequence the steps change nothing. A single step on the empty range at
  the end of the sequence (\<open>begin = end = len\<close>) raises IndexError.
\<close>

theorem selection_sort_steps_sorts:
  fixes xs :: "('a::linorder) list"
  shows "selection_sort_steps list_less list_swap xs (int (length xs)) = Inr (sort xs)
    \<and> (\<forall>b<length xs. \<exists>m. b \<le> m \<and> m < length xs
           \<and> (\<forall>k. b \<le> k \<and> k < length xs \<longrightarrow> xs ! m \<le> xs ! k)
           \<and> selection_sort_step list_less list_swap xs (int (length xs)) (int b)
               = Inr ((xs[b := xs ! m])[m := xs ! b]))
    \<and> (length xs \<le> 1 \<longrightarrow> selection_sort_steps list_less list_swap xs (int (length xs)) = Inr xs)
    \<and> selection_sort_step list_less list_swap xs (int (length xs)) (int (length xs))
        = Inl IndexError"
proof (intro conjI allI impI)
  show "selection_sort_steps list_less list_swap xs (int (length xs)) = Inr (sort xs)"
    by (rule steps_list)
next
  fix b assume "b < length xs"
  from step_list[OF this]
  show "\<exists>m. b \<le> m \<and> m < length xs
           \<and> (\<forall>k. b \<le> k \<and> k < length xs \<longrightarrow> xs ! m \<le> xs ! k)
           \<and> selection_sort_step list_less list_swap xs (int (length xs)) (int b)
               = Inr ((xs[b := xs ! m])[m := xs ! b])"
    by blast
next
  assume "length xs \<le> 1"
  then have "sort xs = xs"
    by (cases xs) auto
  then show "selection_sort_steps list_less list_swap xs (int (length xs)) = Inr xs"
    by (simp add: steps_list)
next
  show "selection_sort_step list_less list_swap xs (int (length xs)) (int (length xs))
        = Inl IndexError"
    by (simp add: selection_sort_step_def find_min_def list_swap_def py_index_def)
qed

theorem selection_sort_steps_sorts_witness:
  "selection_sort_steps list_less list_swap [3, 1, 2 :: int] 3 = Inr [1, 2, 3]
   \<and> selection_sort_step list_less list_swap [3, 1, 2 :: int] 3 0 = Inr [1, 3, 2]
   \<and> selection_sort_steps list_less list_swap [7 :: int] 1 = Inr [7]"
proof -
  let ?xs = "[3, 1, 2 :: int]"
  note t = selection_sort_steps_sorts [of ?xs]
  have a: "selection_sort_steps list_less list_swap ?xs 3 = Inr [1, 2, 3]"
    using t by simp
  have "(0::nat) < length ?xs" by simp
  with t obtain m where m: "m < length ?xs" "\<forall>k. 0 \<le> k \<and> k < length ?xs \<longrightarrow> ?xs ! m \<le> ?xs ! k"
    "selection_sort_step list_less list_swap ?xs (int (length ?xs)) (int 0)
       = Inr ((?xs[0 := ?xs ! m])[m := ?xs ! 0])"
    by blast
  from m(2) have "0 \<le> (1::nat) \<and> 1 < length ?xs \<longrightarrow> ?xs ! m \<le> ?xs ! 1" by (rule spec)
  then have "?xs ! m \<le> ?xs ! 1" by simp
  with m(1) have "m = 1"
    by (auto simp: less_Suc_eq numeral_3_eq_3)
  with m(3) have b: "selection_sort_step list_less list_swap ?xs 3 0 = Inr [1, 3, 2]"
    by simp
  have "length [7 :: int] \<le> 1" by simp
  with selection_sort_steps_sorts [of "[7 :: int]"]
  have c: "selection_sort_steps list_less list_swap [7 :: int] 1 = Inr [7]"
    by simp
  from a b c show ?thesis by blast
qed

text \<open>
  C2. The claim is that \<^verbatim>\<open>quick_sort\<close> with \<open>begin = 0\<close> and \<open>end = length\<close> returns the
  sequence sorted. On the sequence 2, 5, 3, 2 it returns 2, 3, 2, 5: the pivot is an index,
  the first exchange with \<open>gt\<close> moves another element under it, and the elements that were
  found equal to the first pivot stay in the middle range, which is not sorted again.
\<close>

theorem quick_sort_unsorted_example:
  "quick_sort list_less list_swap [2, 5, 3, 2 :: int] 4 0 = Some (Inr [2, 3, 2, 5])
   \<and> \<not> sorted [2, 3, 2, 5 :: int]"
  by (simp add: quick_sort.simps partition3_def list_less_def list_swap_def py_index_def)

section \<open>Properties of the validator\<close>

lemmas validate_defs = validate_input_def validate_sheet_def validate_empty_cells_def
  validate_duplicates_across_workbooks_def across_inner_def across_outer_def
  report_non_empty_def check_blank_def empty_class_column_def empty_record_row_def
  find_duplicates_def dup_inner_def dup_outer_def get_class_names_def get_record_names_def
  ws_cell_def ws_touch_def is_blank_def casefold_char_def sublist_Cons_right upt_rec

text \<open>
  C3. The claim is that a sheet with a non-empty corner cell gets exactly one finding and no
  further check. On the sheet with A1 = x, A2 = r, B2 = 1 and B1 empty, \<^verbatim>\<open>validate_input\<close>
  records the corner finding and then a second finding for B2 (a value under an empty class
  name), and it enters the labels of the sheet into the context: the early return leaves
  \<^verbatim>\<open>validate_sheet\<close> only, and the two other checks still run.
\<close>

theorem validate_input_corner_not_skipped:
  "validate_input
     [\<lparr>title = ''S'', max_row = 2, max_column = 2,
       cells = map_of [((1, 1), Str ''x''), ((2, 1), Str ''r''), ((2, 2), Num 1)]\<rparr>]
     ''wb'' False [] Map.empty =
   Inr ([\<lparr>title = ''S'', max_row = 2, max_column = 2,
           cells = map_of [((1, 1), Str ''x''), ((2, 1), Str ''r''), ((2, 2), Num 1)]\<rparr>],
        [InputInconsistency NonEmptyA1 ''wb'' ''S'' 1 1,
         InputInconsistency NonEmptyEmptyClass ''wb'' ''S'' 2 2],
        [(''S'', Str ''x'', Str ''x'') \<mapsto> (''wb'', 1, 1),
         (''S'', Str ''r'', Str ''x'') \<mapsto> (''wb'', 2, 1)])"
  by (simp add: validate_defs numeral_2_eq_2)

text \<open>
  C4. The claim is that, with \<open>ignore_blanks\<close> false, every non-empty data cell of a blank
  row is reported, the last column included. On the sheet with B1 = A, A2 = Blank 1 and
  B2 = 1 (two columns) \<^verbatim>\<open>validate_input\<close> records nothing: the loop over the columns of a
  blank row is \<^verbatim>\<open>range(2, sheet.max_column)\<close>, which leaves the last column out.
\<close>

theorem validate_input_blank_last_column:
  "validate_input
     [\<lparr>title = ''S'', max_row = 2, max_column = 2,
       cells = map_of [((1, 2), Str ''A''), ((2, 1), Str ''Blank 1''), ((2, 2), Num 1)]\<rparr>]
     ''wb'' False [] Map.empty =
   Inr ([\<lparr>title = ''S'', max_row = 2, max_column = 2,
           cells = map_of [((1, 2), Str ''A''), ((2, 1), Str ''Blank 1''), ((2, 2), Num 1)]\<rparr>],
        [],
        [(''S'', Str ''Blank 1'', Str ''A'') \<mapsto> (''wb'', 2, 2)])
   \<and> is_blank (Some (Str ''Blank 1'')) = Inr True"
  by (simp add: validate_defs numeral_2_eq_2)

section \<open>Properties of the column swap\<close>

text \<open>
  C7. On a sheet that is not the degenerate table, \<^verbatim>\<open>column_swap\<close> raises InvalidCellIndex
  whenever \<open>i\<close> or \<open>j\<close> is below 1 or above \<^verbatim>\<open>max_column\<close>. On the degenerate table
  (\<^verbatim>\<open>max_row = max_column = 1\<close>, empty corner cell) every call with \<open>i \<ge> 1\<close> and \<open>j \<ge> 1\<close>
  returns the sheet unchanged, also when an index is above \<^verbatim>\<open>max_column\<close>.
\<close>

theorem column_swap_bounds:
  "(\<not> (max_row sheet = 1 \<and> max_column sheet = 1 \<and> cells sheet (1, 1) = None) \<and>
      (i < 1 \<or> j < 1 \<or> i > int (max_column sheet) \<or> j > int (max_column sheet))
      \<longrightarrow> (\<exists>k. column_swap sheet i j =
                 Inl (InvalidCellIndex ''column_swap'' k 1 (max_column sheet) (max_row sheet))))
   \<and> (max_row sheet = 1 \<and> max_column sheet = 1 \<and> cells sheet (1, 1) = None \<and> 1 \<le> i \<and> 1 \<le> j
      \<longrightarrow> column_swap sheet i j = Inr sheet)"
  by (auto simp: column_swap_def ws_cell_def ws_touch_def)

theorem column_swap_bounds_witness:
  "(\<exists>k. column_swap \<lparr>title = ''S'', max_row = 2, max_column = 2,
           cells = map_of [((1, 2), Str ''A''), ((2, 1), Str ''r''), ((2, 2), Num 1)]\<rparr> 2 5 =
         Inl (InvalidCellIndex ''column_swap'' k 1 2 2))
   \<and> column_swap (new_sheet ''S'') 2 5 = Inr (new_sheet ''S'')"
  using column_swap_bounds [of "\<lparr>title = ''S'', max_row = 2, max_column = 2,
           cells = map_of [((1, 2), Str ''A''), ((2, 1), Str ''r''), ((2, 2), Num 1)]\<rparr>" 2 5]
        column_swap_bounds [of "new_sheet ''S''" 2 5]
  by (simp add: new_sheet_def)

section \<open>Properties of the consistency verifier\<close>

lemma isclose_error: "isclose close a b = Inl e \<Longrightarrow> e = TypeError \<or> e = OverflowError"
  by (auto simp: isclose_def split: val.splits option.splits)

lemma is_blank_error: "is_blank r = Inl e \<Longrightarrow> e = AttributeError"
  by (auto simp: is_blank_def split: option.splits val.splits)

lemma clear_cell_error:
  "clear_cell close source rm cm r c d = Inl (e, d') \<Longrightarrow> cell_error e"
  by (auto simp: clear_cell_def cell_error_def ws_cell_def Let_def
           split: option.splits sum.splits if_splits dest: isclose_error)

lemma clear_row_error:
  "clear_row close source ib rm cm r d = Inl (e, d') \<Longrightarrow> cell_error e"
  by (auto simp: clear_row_def cell_error_def split: if_splits sum.splits
           dest!: foldE_Inl_cases is_blank_error clear_cell_error)

lemma clear_rows_error:
  "clear_rows close source ib rm cm d = Inl (e, d') \<Longrightarrow> cell_error e"
  by (auto simp: clear_rows_def dest!: foldE_Inl_cases clear_row_error)


lemmas clear_defs = clear_found_values_def clear_rows_def clear_row_def clear_cell_def
  src_dst_record_map_def src_dst_classes_map_def
  lookup_def isclose_def trim_class_name_def strip_def is_space_def
  get_class_names_def get_record_names_def ws_cell_def ws_touch_def ws_assign_def
  is_blank_def casefold_char_def sublist_Cons_right upt_rec

text \<open>
  C10. When \<^verbatim>\<open>clear_found_values\<close> raises the ConsistencyError "Source data not found in
  destination." for a label without a match (a record name, a class name, trimmed or not, or
  a class name that cannot be trimmed), the destination is as it was before the call: both
  lists of positions are built before the first cell is cleared.
\<close>

theorem clear_found_values_lookup_atomic:
  assumes "1 \<le> max_row destination" and "1 \<le> max_column destination"
    and res: "clear_found_values close destination source ignore_blanks trim_class_names
           = Inl (ConsistencyError msg [d], destination')"
    and d: "d = DataRecord v \<or> d = LipidClass v \<or> d = LipidClassNotText v"
  shows "destination' = destination"
proof -
  have no_cell: "\<not> cell_error (ConsistencyError msg [d])"
    using d by (auto simp: cell_error_def)
  have rows: "\<And>rm cm. clear_rows close source ignore_blanks rm cm destination
                 \<noteq> Inl (ConsistencyError msg [d], destination')"
    using clear_rows_error no_cell by blast
  from res show ?thesis
    unfolding clear_found_values_def
    using rows
    by (simp add: get_record_names_eq[OF assms(2)] get_class_names_eq[OF assms(1)] Let_def
             split: sum.splits)
qed

theorem clear_found_values_lookup_atomic_witness:
  "\<forall>close. \<exists>d. clear_found_values close
     \<lparr>title = ''S'', max_row = 2, max_column = 2,
       cells = map_of [((1, 2), Str ''A''), ((2, 1), Str ''r''), ((2, 2), Num 1)]\<rparr>
     \<lparr>title = ''S'', max_row = 3, max_column = 2,
       cells = map_of [((1, 2), Str ''A''), ((2, 1), Str ''r''), ((2, 2), Num 1),
                       ((3, 1), Str ''q''), ((3, 2), Num 2)]\<rparr>
     False False =
       Inl (ConsistencyError ''Source data not found in destination.''
              [DataRecord (Some (Str ''q''))], d)
     \<and> d = \<lparr>title = ''S'', max_row = 2, max_column = 2,
       cells = map_of [((1, 2), Str ''A''), ((2, 1), Str ''r''), ((2, 2), Num 1)]\<rparr>"
proof
  fix close :: "rat \<Rightarrow> rat \<Rightarrow> bool option"
  let ?D = "\<lparr>title = ''S'', max_row = 2, max_column = 2,
       cells = map_of [((1, 2), Str ''A''), ((2, 1), Str ''r''), ((2, 2), Num 1)]\<rparr>"
  let ?S = "\<lparr>title = ''S'', max_row = 3, max_column = 2,
       cells = map_of [((1, 2), Str ''A''), ((2, 1), Str ''r''), ((2, 2), Num 1),
                       ((3, 1), Str ''q''), ((3, 2), Num 2)]\<rparr>"
  have h1: "1 \<le> max_row ?D" and h2: "1 \<le> max_column ?D" by simp_all
  obtain e d where r: "clear_found_values close ?D ?S False False = Inl (e, d)"
    by (simp add: clear_defs)
  then have e: "e = ConsistencyError ''Source data not found in destination.''
              [DataRecord (Some (Str ''q''))]"
    by (simp add: clear_defs)
  have "DataRecord (Some (Str ''q'')) = DataRecord (Some (Str ''q''))
        \<or> DataRecord (Some (Str ''q'')) = LipidClass (Some (Str ''q''))
        \<or> DataRecord (Some (Str ''q'')) = LipidClassNotText (Some (Str ''q''))"
    by simp
  from clear_found_values_lookup_atomic [OF h1 h2 r[unfolded e] this]
  have "d = ?D" .
  with r e show "\<exists>d. clear_found_values close ?D ?S False False =
       Inl (ConsistencyError ''Source data not found in destination.''
              [DataRecord (Some (Str ''q''))], d)
     \<and> d = ?D" by simp
qed

text \<open>
  C5. The claim is that for a source value that is not a number, under names that resolve
  in the destination, \<^verbatim>\<open>clear_found_values\<close> clears the destination cell when the two
  values are equal, and raises the ConsistencyError "Source data differs for destination."
  when they differ. Here the source and the destination hold the same text \<open>a\<close> under the
  same names, and the call raises TypeError without clearing the cell; with the text \<open>b\<close>
  in the destination it raises TypeError as well, not the ConsistencyError. The only
  comparison in the loops is \<^verbatim>\<open>math.isclose\<close>, which takes numbers; whatever it does on
  numbers (the parameter \<open>close\<close>) has no part in this.
\<close>

theorem clear_found_values_text_raises:
  "\<forall>close.
     clear_found_values close
       \<lparr>title = ''S'', max_row = 2, max_column = 2,
         cells = map_of [((1, 2), Str ''A''), ((2, 1), Str ''r''), ((2, 2), Str ''a'')]\<rparr>
       \<lparr>title = ''S'', max_row = 2, max_column = 2,
         cells = map_of [((1, 2), Str ''A''), ((2, 1), Str ''r''), ((2, 2), Str ''a'')]\<rparr>
       False False =
     Inl (TypeError,
       \<lparr>title = ''S'', max_row = 2, max_column = 2,
         cells = map_of [((1, 2), Str ''A''), ((2, 1), Str ''r''), ((2, 2), Str ''a'')]\<rparr>)
   \<and> clear_found_values close
       \<lparr>title = ''S'', max_row = 2, max_column = 2,
         cells = map_of [((1, 2), Str ''A''), ((2, 1), Str ''r''), ((2, 2), Str ''b'')]\<rparr>
       \<lparr>title = ''S'', max_row = 2, max_column = 2,
         cells = map_of [((1, 2), Str ''A''), ((2, 1), Str ''r''), ((2, 2), Str ''a'')]\<rparr>
       False False =
     Inl (TypeError,
       \<lparr>title = ''S'', max_row = 2, max_column = 2,
         cells = map_of [((1, 2), Str ''A''), ((2, 1), Str ''r''), ((2, 2), Str ''b'')]\<rparr>)"
  by (simp add: clear_defs)

section \<open>Properties of the validator: frame and findings\<close>

lemma report_non_empty_eq:
  assumes "\<forall>p\<in>set ps. fst p \<le> max_row sh \<and> snd p \<le> max_column sh"
  shows "report_non_empty msg name ps (sh, res) =
     (sh, res @ map (\<lambda>p. InputInconsistency msg name (title sh) (fst p) (snd p))
                   (filter (\<lambda>p. cells sh p \<noteq> None) ps))"
  using assms
proof (induction ps arbitrary: res)
  case Nil
  then show ?case by (simp add: report_non_empty_def)
next
  case (Cons p ps)
  obtain r c where p: "p = (r, c)" by (cases p)
  from Cons.prems p have b: "r \<le> max_row sh" "c \<le> max_column sh" by auto
  from Cons.prems have rest: "\<forall>p\<in>set ps. fst p \<le> max_row sh \<and> snd p \<le> max_column sh" by simp
  have step: "report_non_empty msg name (p # ps) (sh, res) =
        report_non_empty msg name ps
          (sh, if cells sh (r, c) \<noteq> None
               then res @ [InputInconsistency msg name (title sh) r c] else res)"
    by (simp add: report_non_empty_def p ws_cell_in_bounds[OF b])
  show ?case
    unfolding step using Cons.IH[OF rest] by (simp add: p)
qed

lemma report_non_empty_ex:
  assumes "\<forall>p\<in>set ps. fst p \<le> max_row sh \<and> snd p \<le> max_column sh"
  shows "\<exists>n. report_non_empty msg name ps (sh, res) = (sh, res @ n) \<and>
             (n = [] \<longrightarrow> (\<forall>p\<in>set ps. cells sh p = None))"
  using report_non_empty_eq[OF assms] by (auto simp: filter_empty_conv)

lemma dup_inner_fold:
  "fold (dup_inner mk names i x) js (af, res) = (af', res') \<Longrightarrow>
   \<exists>new. res' = res @ new \<and> (new = [] \<longrightarrow> af' = af \<and> (\<forall>j\<in>set js. names ! j \<noteq> Some x))"
proof (induction js arbitrary: af res)
  case Nil
  then show ?case by simp
next
  case (Cons j js)
  obtain af1 res1 where s1: "dup_inner mk names i x j (af, res) = (af1, res1)"
    by (cases "dup_inner mk names i x j (af, res)")
  then have 1: "\<exists>n1. res1 = res @ n1 \<and> (n1 = [] \<longrightarrow> af1 = af \<and> names ! j \<noteq> Some x)"
    by (auto simp: dup_inner_def split: if_splits)
  from Cons.prems s1 have "fold (dup_inner mk names i x) js (af1, res1) = (af', res')" by simp
  from Cons.IH[OF this] 1 show ?case by auto
qed

lemma dup_outer_step:
  assumes "dup_outer skip mk names k (af0, res0) = Inr (af, res')"
  shows "\<exists>n1. res' = res0 @ n1 \<and> (n1 = [] \<and> af0 = [] \<longrightarrow> af = [] \<and> no_dup_from skip names k)"
proof (cases "names ! k")
  case None
  with assms show ?thesis by (auto simp: dup_outer_def no_dup_from_def)
next
  case (Some x)
  show ?thesis
  proof (cases "x \<in> set af0")
    case True
    with assms Some show ?thesis by (auto simp: dup_outer_def)
  next
    case False
    with assms Some obtain b where b: "skip x = Inr b"
      by (auto simp: dup_outer_def split: sum.splits)
    show ?thesis
    proof (cases b)
      case True
      with assms Some False b show ?thesis by (auto simp: dup_outer_def no_dup_from_def)
    next
      case bf: False
      with assms Some False b
      have "fold (dup_inner mk names k x) [k + 1..<length names] (af0, res0) = (af, res')"
        by (simp add: dup_outer_def)
      from dup_inner_fold[OF this] obtain new where
        "res' = res0 @ new" "new = [] \<longrightarrow> af = af0 \<and> (\<forall>j\<in>set [k + 1..<length names]. names ! j \<noteq> Some x)"
        by blast
      then show ?thesis using Some b bf by (auto simp: no_dup_from_def)
    qed
  qed
qed

lemma find_duplicates_prefix:
  assumes "foldE (dup_outer skip mk names) [0..<k] ([], res) = Inr (af, res')"
  shows "\<exists>new. res' = res @ new \<and> (new = [] \<longrightarrow> af = [] \<and> (\<forall>i<k. no_dup_from skip names i))"
  using assms
proof (induction k arbitrary: af res')
  case 0
  then show ?case by simp
next
  case (Suc k)
  from Suc.prems obtain af0 res0 where
    pre: "foldE (dup_outer skip mk names) [0..<k] ([], res) = Inr (af0, res0)"
    and last: "dup_outer skip mk names k (af0, res0) = Inr (af, res')"
    by (auto simp: foldE_append split: sum.splits)
  from Suc.IH[OF pre] obtain n0 where
    n0: "res0 = res @ n0" "n0 = [] \<longrightarrow> af0 = [] \<and> (\<forall>i<k. no_dup_from skip names i)"
    by blast
  from dup_outer_step[OF last] obtain n1 where
    n1: "res' = res0 @ n1" "n1 = [] \<and> af0 = [] \<longrightarrow> af = [] \<and> no_dup_from skip names k"
    by blast
  have "res' = res @ (n0 @ n1)" using n0(1) n1(1) by simp
  moreover have "n0 @ n1 = [] \<longrightarrow> af = [] \<and> (\<forall>i<Suc k. no_dup_from skip names i)"
    using n0(2) n1(2) by (auto simp: less_Suc_eq)
  ultimately show ?case by blast
qed

lemma find_duplicates_spec:
  assumes "find_duplicates skip mk names res = Inr res'"
  shows "\<exists>new. res' = res @ new \<and> (new = [] \<longrightarrow> (\<forall>i<length names. no_dup_from skip names i))"
proof -
  from assms obtain af where
    "foldE (dup_outer skip mk names) [0..<length names] ([], res) = Inr (af, res')"
    by (auto simp: find_duplicates_def split: sum.splits)
  from find_duplicates_prefix[OF this] show ?thesis by blast
qed

lemma fold_frame:
  assumes "\<forall>x\<in>set xs. \<forall>res. \<exists>n. f x (sh, res) = (sh, res @ n) \<and> (n = [] \<longrightarrow> P x)"
  shows "\<exists>new. fold f xs (sh, res) = (sh, res @ new) \<and> (new = [] \<longrightarrow> (\<forall>x\<in>set xs. P x))"
  using assms
proof (induction xs arbitrary: res)
  case Nil
  then show ?case by simp
next
  case (Cons x xs)
  from Cons.prems obtain n where n: "f x (sh, res) = (sh, res @ n)" "n = [] \<longrightarrow> P x"
    by (meson list.set_intros(1))
  from Cons.prems have "\<forall>x\<in>set xs. \<forall>res. \<exists>n. f x (sh, res) = (sh, res @ n) \<and> (n = [] \<longrightarrow> P x)"
    by simp
  from Cons.IH[OF this, of "res @ n"] obtain new where
    new: "fold f xs (sh, res @ n) = (sh, (res @ n) @ new)" "new = [] \<longrightarrow> (\<forall>x\<in>set xs. P x)"
    by blast
  have "fold f (x # xs) (sh, res) = (sh, res @ (n @ new))"
    using n(1) new(1) by simp
  moreover have "n @ new = [] \<longrightarrow> (\<forall>y\<in>set (x # xs). P y)"
    using n(2) new(2) by simp
  ultimately show ?case by blast
qed

lemma foldE_frame:
  assumes "\<forall>x\<in>set xs. \<forall>res s'. f x (sh, res) = Inr s' \<longrightarrow>
             (\<exists>n. s' = (sh, res @ n) \<and> Q x \<and> (n = [] \<longrightarrow> P x))"
    and "foldE f xs (sh, res) = Inr s'"
  shows "\<exists>new. s' = (sh, res @ new) \<and> (\<forall>x\<in>set xs. Q x) \<and> (new = [] \<longrightarrow> (\<forall>x\<in>set xs. P x))"
  using assms
proof (induction xs arbitrary: res)
  case Nil
  then have "s' = (sh, res @ [])" by simp
  then show ?case by (metis empty_iff list.set(1))
next
  case (Cons x xs)
  from Cons.prems(2) obtain s1 where s1: "f x (sh, res) = Inr s1" "foldE f xs s1 = Inr s'"
    by (auto split: sum.splits)
  with Cons.prems(1) obtain n where n: "s1 = (sh, res @ n)" "Q x" "n = [] \<longrightarrow> P x"
    by (meson list.set_intros(1))
  from Cons.prems(1) have "\<forall>x\<in>set xs. \<forall>res s'. f x (sh, res) = Inr s' \<longrightarrow>
             (\<exists>n. s' = (sh, res @ n) \<and> Q x \<and> (n = [] \<longrightarrow> P x))"
    by simp
  from Cons.IH[OF this, of "res @ n"] s1(2) n(1) obtain new where
    new: "s' = (sh, (res @ n) @ new)" "\<forall>x\<in>set xs. Q x" "new = [] \<longrightarrow> (\<forall>x\<in>set xs. P x)"
    by blast
  have "s' = (sh, res @ (n @ new))" using new(1) by simp
  moreover have "\<forall>y\<in>set (x # xs). Q y" using n(2) new(2) by simp
  moreover have "n @ new = [] \<longrightarrow> (\<forall>y\<in>set (x # xs). P y)"
    using n(3) new(3) by simp
  ultimately show ?case by blast
qed

lemma check_blank_step:
  assumes "i < max_row sh" and "check_blank name recs i (sh, res) = Inr s'"
  shows "\<exists>n. s' = (sh, res @ n) \<and> (\<exists>b. is_blank (recs ! i) = Inr b) \<and> (n = [] \<longrightarrow> True)"
proof -
  have "\<forall>p\<in>set (map (\<lambda>icol. (i + 1, icol)) [2..<max_column sh]).
          fst p \<le> max_row sh \<and> snd p \<le> max_column sh"
    using assms(1) by auto
  from report_non_empty_ex[OF this] obtain n where
    "report_non_empty NonEmptyInBlank name (map (\<lambda>icol. (i + 1, icol)) [2..<max_column sh])
       (sh, res) = (sh, res @ n)"
    by blast
  note r = this
  show ?thesis
  proof (cases "is_blank (recs ! i)")
    case (Inl e)
    with assms(2) show ?thesis by (simp add: check_blank_def)
  next
    case (Inr b)
    show ?thesis
    proof (cases b)
      case True
      with Inr assms(2) r have "s' = (sh, res @ n)" by (simp add: check_blank_def)
      with Inr show ?thesis by blast
    next
      case False
      with Inr assms(2) have "s' = (sh, res @ [])" by (simp add: check_blank_def)
      with Inr show ?thesis by blast
    qed
  qed
qed

lemma empty_class_column_step:
  assumes "icol \<le> max_column sh" "1 \<le> max_row sh"
  shows "\<exists>n. empty_class_column name icol (sh, res) = (sh, res @ n) \<and>
           (n = [] \<longrightarrow> (cells sh (1, icol) = None \<longrightarrow>
                          (\<forall>irow. 2 \<le> irow \<and> irow \<le> max_row sh \<longrightarrow> cells sh (irow, icol) = None)))"
proof (cases "cells sh (1, icol)")
  case (Some v)
  then show ?thesis
    using assms by (simp add: empty_class_column_def ws_cell_in_bounds)
next
  case None
  have b: "\<forall>p\<in>set (map (\<lambda>irow. (irow, icol)) [2..<max_row sh + 1]).
          fst p \<le> max_row sh \<and> snd p \<le> max_column sh"
    using assms(1) by auto
  from report_non_empty_ex[OF b] obtain n where
    n: "report_non_empty NonEmptyEmptyClass name (map (\<lambda>irow. (irow, icol)) [2..<max_row sh + 1])
       (sh, res) = (sh, res @ n)"
       "n = [] \<longrightarrow> (\<forall>p\<in>set (map (\<lambda>irow. (irow, icol)) [2..<max_row sh + 1]). cells sh p = None)"
    by blast
  have "empty_class_column name icol (sh, res) = (sh, res @ n)"
    using None assms n(1) by (simp add: empty_class_column_def ws_cell_in_bounds del: upt_Suc)
  moreover have "n = [] \<longrightarrow> (\<forall>irow. 2 \<le> irow \<and> irow \<le> max_row sh \<longrightarrow> cells sh (irow, icol) = None)"
    using n(2) by (auto simp del: upt_Suc)
  ultimately show ?thesis by blast
qed

lemma empty_record_row_step:
  assumes "irow \<le> max_row sh" "1 \<le> max_column sh"
  shows "\<exists>n. empty_record_row name irow (sh, res) = (sh, res @ n) \<and>
           (n = [] \<longrightarrow> (cells sh (irow, 1) = None \<longrightarrow>
                          (\<forall>icol. 2 \<le> icol \<and> icol \<le> max_column sh \<longrightarrow> cells sh (irow, icol) = None)))"
proof (cases "cells sh (irow, 1)")
  case (Some v)
  then show ?thesis
    using assms by (simp add: empty_record_row_def ws_cell_in_bounds)
next
  case None
  have b: "\<forall>p\<in>set (map (\<lambda>icol. (irow, icol)) [2..<max_column sh + 1]).
          fst p \<le> max_row sh \<and> snd p \<le> max_column sh"
    using assms(1) by auto
  from report_non_empty_ex[OF b] obtain n where
    n: "report_non_empty NonEmptyEmptyRecord name (map (\<lambda>icol. (irow, icol)) [2..<max_column sh + 1])
       (sh, res) = (sh, res @ n)"
       "n = [] \<longrightarrow> (\<forall>p\<in>set (map (\<lambda>icol. (irow, icol)) [2..<max_column sh + 1]). cells sh p = None)"
    by blast
  have "empty_record_row name irow (sh, res) = (sh, res @ n)"
    using None assms n(1) by (simp add: empty_record_row_def ws_cell_in_bounds del: upt_Suc)
  moreover have "n = [] \<longrightarrow> (\<forall>icol. 2 \<le> icol \<and> icol \<le> max_column sh \<longrightarrow> cells sh (irow, icol) = None)"
    using n(2) by (auto simp del: upt_Suc)
  ultimately show ?thesis by blast
qed

lemma validate_empty_cells_spec:
  assumes "1 \<le> max_row sh" "1 \<le> max_column sh"
  shows "\<exists>new. validate_empty_cells name sh res = (sh, res @ new) \<and>
            (new = [] \<longrightarrow> no_data_without_label sh)"
proof -
  have 1: "\<forall>icol\<in>set [2..<max_column sh + 1]. \<forall>res.
            \<exists>n. empty_class_column name icol (sh, res) = (sh, res @ n) \<and>
           (n = [] \<longrightarrow> (cells sh (1, icol) = None \<longrightarrow>
                          (\<forall>irow. 2 \<le> irow \<and> irow \<le> max_row sh \<longrightarrow> cells sh (irow, icol) = None)))"
    using empty_class_column_step[OF _ assms(1)] by (simp del: upt_Suc)
  have 2: "\<forall>irow\<in>set [2..<max_row sh + 1]. \<forall>res.
            \<exists>n. empty_record_row name irow (sh, res) = (sh, res @ n) \<and>
           (n = [] \<longrightarrow> (cells sh (irow, 1) = None \<longrightarrow>
                          (\<forall>icol. 2 \<le> icol \<and> icol \<le> max_column sh \<longrightarrow> cells sh (irow, icol) = None)))"
    using empty_record_row_step[OF _ assms(2)] by (simp del: upt_Suc)
  from fold_frame[OF 1, of res] obtain n1 where
    n1: "fold (empty_class_column name) [2..<max_column sh + 1] (sh, res) = (sh, res @ n1)"
        "n1 = [] \<longrightarrow> (\<forall>icol\<in>set [2..<max_column sh + 1]. cells sh (1, icol) = None \<longrightarrow>
                          (\<forall>irow. 2 \<le> irow \<and> irow \<le> max_row sh \<longrightarrow> cells sh (irow, icol) = None))"
    by blast
  from fold_frame[OF 2, of "res @ n1"] obtain n2 where
    n2: "fold (empty_record_row name) [2..<max_row sh + 1] (sh, res @ n1) = (sh, (res @ n1) @ n2)"
        "n2 = [] \<longrightarrow> (\<forall>irow\<in>set [2..<max_row sh + 1]. cells sh (irow, 1) = None \<longrightarrow>
                          (\<forall>icol. 2 \<le> icol \<and> icol \<le> max_column sh \<longrightarrow> cells sh (irow, icol) = None))"
    by blast
  have "validate_empty_cells name sh res = (sh, res @ (n1 @ n2))"
    using n1(1) n2(1) by (simp add: validate_empty_cells_def)
  moreover have "n1 @ n2 = [] \<longrightarrow> no_data_without_label sh"
  proof
    assume "n1 @ n2 = []"
    then have e: "n1 = []" "n2 = []" by simp_all
    show "no_data_without_label sh"
      unfolding no_data_without_label_def
    proof (intro allI impI)
      fix r c
      assume a: "2 \<le> r \<and> r \<le> max_row sh \<and> 2 \<le> c \<and> c \<le> max_column sh \<and> cells sh (r, c) \<noteq> None"
      have "cells sh (r, 1) \<noteq> None"
        using n2(2) e(2) a by (auto simp del: upt_Suc)
      moreover have "cells sh (1, c) \<noteq> None"
        using n1(2) e(1) a by (auto simp del: upt_Suc)
      ultimately show "cells sh (r, 1) \<noteq> None \<and> cells sh (1, c) \<noteq> None" by simp
    qed
  qed
  ultimately show ?thesis by blast
qed

lemma length_classes_of [simp]: "length (classes_of sh) = max_column sh"
  by (simp add: classes_of_def)

lemma length_records_of [simp]: "length (records_of sh) = max_row sh"
  by (simp add: records_of_def)

lemma nth_classes_of: "i < max_column sh \<Longrightarrow> classes_of sh ! i = cells sh (1, Suc i)"
  by (simp add: classes_of_def nth_append del: upt_Suc)

lemma nth_records_of: "i < max_row sh \<Longrightarrow> records_of sh ! i = cells sh (Suc i, 1)"
  by (simp add: records_of_def del: upt_Suc)

lemma get_class_names_of: "1 \<le> max_row sh \<Longrightarrow> get_class_names sh = (classes_of sh, sh)"
  by (simp add: get_class_names_eq classes_of_def)

lemma get_record_names_of: "1 \<le> max_column sh \<Longrightarrow> get_record_names sh = (records_of sh, sh)"
  by (simp add: get_record_names_eq records_of_def)

lemma validate_sheet_spec:
  assumes b: "1 \<le> max_row sh" "1 \<le> max_column sh"
    and v: "validate_sheet name ib sh res = Inr (sh', res')"
  shows "sh' = sh \<and> (\<exists>new. res' = res @ new \<and>
           (new = [] \<longrightarrow> cells sh (1, 1) = None
              \<and> (\<forall>i<max_column sh. no_dup_from (\<lambda>x. Inr False) (classes_of sh) i)
              \<and> (\<forall>i<max_row sh. no_dup_from (skip_blank ib) (records_of sh) i)
              \<and> (\<not> ib \<longrightarrow> (\<forall>i<max_row sh. \<exists>b. is_blank (records_of sh ! i) = Inr b))))"
proof (cases "cells sh (1, 1)")
  case (Some a)
  with v b have "sh' = sh" "res' = res @ [InputInconsistency NonEmptyA1 name (title sh) 1 1]"
    by (auto simp: validate_sheet_def ws_cell_in_bounds)
  then show ?thesis by blast
next
  case None
  from v None b obtain r1 where
    r1: "find_duplicates (\<lambda>cls. Inr False)
               (\<lambda>cls i. InputInconsistency (DuplicateClass cls) name (title sh) 1 (i + 1))
               (classes_of sh) res = Inr r1"
    by (auto simp: validate_sheet_def ws_cell_in_bounds get_class_names_of split: sum.splits)
  from v None b r1 obtain r2 where
    r2: "find_duplicates (skip_blank ib)
                   (\<lambda>rec i. InputInconsistency (DuplicateRecord rec) name (title sh) (i + 1) 1)
                   (records_of sh) r1 = Inr r2"
    unfolding skip_blank_def
    by (auto simp: validate_sheet_def ws_cell_in_bounds get_class_names_of get_record_names_of
             split: sum.splits)
  from v None b r1 r2 have
    r3: "(if \<not> ib then foldE (check_blank name (records_of sh)) [0..<length (records_of sh)] (sh, r2)
          else Inr (sh, r2)) = Inr (sh', res')"
    unfolding skip_blank_def
    by (simp add: validate_sheet_def ws_cell_in_bounds get_class_names_of get_record_names_of)
  from find_duplicates_spec[OF r1] obtain n1 where
    n1: "r1 = res @ n1" "n1 = [] \<longrightarrow> (\<forall>i<max_column sh. no_dup_from (\<lambda>x. Inr False) (classes_of sh) i)"
    by auto
  from find_duplicates_spec[OF r2] obtain n2 where
    n2: "r2 = r1 @ n2" "n2 = [] \<longrightarrow> (\<forall>i<max_row sh. no_dup_from (skip_blank ib) (records_of sh) i)"
    by auto
  have "\<exists>n3. (sh', res') = (sh, r2 @ n3) \<and>
          (\<not> ib \<longrightarrow> (\<forall>i<max_row sh. \<exists>b. is_blank (records_of sh ! i) = Inr b))"
  proof (cases ib)
    case True
    with r3 have "(sh', res') = (sh, r2 @ [])" by simp
    with True show ?thesis by blast
  next
    case False
    with r3 have f: "foldE (check_blank name (records_of sh)) [0..<max_row sh] (sh, r2)
                       = Inr (sh', res')" by simp
    have st: "\<forall>x\<in>set [0..<max_row sh]. \<forall>res s'. check_blank name (records_of sh) x (sh, res) = Inr s' \<longrightarrow>
             (\<exists>n. s' = (sh, res @ n) \<and> (\<exists>b. is_blank (records_of sh ! x) = Inr b) \<and> (n = [] \<longrightarrow> True))"
      using check_blank_step by auto
    from foldE_frame[OF st f] show ?thesis by auto
  qed
  then obtain n3 where n3: "sh' = sh" "res' = r2 @ n3"
     "\<not> ib \<longrightarrow> (\<forall>i<max_row sh. \<exists>b. is_blank (records_of sh ! i) = Inr b)"
    by auto
  have "res' = res @ (n1 @ n2 @ n3)" using n1(1) n2(1) n3(2) by simp
  moreover have "n1 @ n2 @ n3 = [] \<longrightarrow> cells sh (1, 1) = None
              \<and> (\<forall>i<max_column sh. no_dup_from (\<lambda>x. Inr False) (classes_of sh) i)
              \<and> (\<forall>i<max_row sh. no_dup_from (skip_blank ib) (records_of sh) i)
              \<and> (\<not> ib \<longrightarrow> (\<forall>i<max_row sh. \<exists>b. is_blank (records_of sh ! i) = Inr b))"
    using None n1(2) n2(2) n3(3) by simp
  ultimately show ?thesis using n3(1) by blast
qed

lemma ctx_step_refl: "ctx_step name {} ctx ctx"
  by (simp add: ctx_step_def)

lemma ctx_step_keep: "ctx_step name K c c' \<Longrightarrow> c k = Some v \<Longrightarrow> c' k = Some v"
  unfolding ctx_step_def by blast

lemma ctx_step_bound: "ctx_step name K c c' \<Longrightarrow> k \<in> K \<Longrightarrow> \<exists>a b. c' k = Some (name, a, b)"
  unfolding ctx_step_def by blast

lemma ctx_step_origin:
  "ctx_step name K c c' \<Longrightarrow> c' k = Some (nm, a, b) \<Longrightarrow> c k = Some (nm, a, b) \<or> (nm = name \<and> k \<in> K)"
  unfolding ctx_step_def by blast

lemma ctx_stepI:
  assumes "\<And>k v. c k = Some v \<Longrightarrow> c' k = Some v"
    and "\<And>k. k \<in> K \<Longrightarrow> \<exists>a b. c' k = Some (name, a, b)"
    and "\<And>k nm a b. c' k = Some (nm, a, b) \<Longrightarrow> c k = Some (nm, a, b) \<or> (nm = name \<and> k \<in> K)"
  shows "ctx_step name K c c'"
  unfolding ctx_step_def using assms by blast

lemma ctx_step_trans:
  assumes a: "ctx_step name K1 c0 c1" and b: "ctx_step name K2 c1 c2"
  shows "ctx_step name (K1 \<union> K2) c0 c2"
proof (rule ctx_stepI)
  fix k v assume "c0 k = Some v"
  then show "c2 k = Some v"
    using ctx_step_keep[OF a] ctx_step_keep[OF b] by blast
next
  fix k assume "k \<in> K1 \<union> K2"
  then show "\<exists>a b. c2 k = Some (name, a, b)"
    using ctx_step_bound[OF a] ctx_step_bound[OF b] ctx_step_keep[OF b] by blast
next
  fix k nm x y assume "c2 k = Some (nm, x, y)"
  then show "c0 k = Some (nm, x, y) \<or> (nm = name \<and> k \<in> K1 \<union> K2)"
    using ctx_step_origin[OF a] ctx_step_origin[OF b] by blast
qed

lemma across_inner_step:
  assumes "across_inner name ttl cls i record j (res, ctx) = (res', ctx')"
  shows "\<exists>n. res' = res @ n \<and>
           (n = [] \<longrightarrow> ctx_step name {k. \<exists>cl. cls ! j = Some cl \<and> k = (ttl, record, cl)} ctx ctx')"
proof (cases "cls ! j")
  case None
  with assms show ?thesis by (auto simp: across_inner_def ctx_step_def)
next
  case (Some cl)
  show ?thesis
  proof (cases "ctx (ttl, record, cl)")
    case None
    with assms Some have "res' = res @ []" "ctx' = ctx((ttl, record, cl) \<mapsto> (name, i + 1, j + 1))"
      by (auto simp: across_inner_def)
    moreover have "ctx_step name {k. \<exists>cl. cls ! j = Some cl \<and> k = (ttl, record, cl)} ctx
             (ctx((ttl, record, cl) \<mapsto> (name, i + 1, j + 1)))"
      using None Some by (auto simp: ctx_step_def)
    ultimately show ?thesis by blast
  next
    case (Some v)
    obtain n0 r0 c0 where v: "v = (n0, r0, c0)" by (cases v)
    show ?thesis
    proof (cases "n0 = name")
      case True
      with assms \<open>cls ! j = Some cl\<close> Some v have "res' = res @ []" "ctx' = ctx"
        by (auto simp: across_inner_def)
      moreover have "ctx_step name {k. \<exists>cl. cls ! j = Some cl \<and> k = (ttl, record, cl)} ctx ctx"
        using Some v True \<open>cls ! j = Some cl\<close> by (auto simp: ctx_step_def)
      ultimately show ?thesis by blast
    next
      case False
      with assms \<open>cls ! j = Some cl\<close> Some v show ?thesis
        by (auto simp: across_inner_def)
    qed
  qed
qed

lemma fold_ctx:
  assumes "\<forall>x\<in>set xs. \<forall>res ctx res' ctx'. f x (res, ctx) = (res', ctx') \<longrightarrow>
             (\<exists>n. res' = res @ n \<and> (n = [] \<longrightarrow> ctx_step name (K x) ctx ctx'))"
    and "fold f xs (res, ctx) = (res', ctx')"
  shows "\<exists>new. res' = res @ new \<and> (new = [] \<longrightarrow> ctx_step name (\<Union>x\<in>set xs. K x) ctx ctx')"
  using assms
proof (induction xs arbitrary: res ctx)
  case Nil
  then have "res' = res @ []" "ctx' = ctx" by simp_all
  moreover have "ctx_step name (\<Union>x\<in>set []. K x) ctx ctx" by (simp add: ctx_step_refl)
  ultimately show ?case by blast
next
  case (Cons x xs)
  obtain r1 c1 where s1: "f x (res, ctx) = (r1, c1)" by (cases "f x (res, ctx)")
  with Cons.prems(1) obtain n where n: "r1 = res @ n" "n = [] \<longrightarrow> ctx_step name (K x) ctx c1"
    by (meson list.set_intros(1))
  from Cons.prems(1) have 1: "\<forall>x\<in>set xs. \<forall>res ctx res' ctx'. f x (res, ctx) = (res', ctx') \<longrightarrow>
             (\<exists>n. res' = res @ n \<and> (n = [] \<longrightarrow> ctx_step name (K x) ctx ctx'))"
    by simp
  from Cons.prems(2) s1 have 2: "fold f xs (r1, c1) = (res', ctx')" by simp
  from Cons.IH[OF 1 2] obtain new where
    new: "res' = r1 @ new" "new = [] \<longrightarrow> ctx_step name (\<Union>x\<in>set xs. K x) c1 ctx'"
    by blast
  have "res' = res @ (n @ new)" using n(1) new(1) by simp
  moreover have "n @ new = [] \<longrightarrow> ctx_step name (\<Union>y\<in>set (x # xs). K y) ctx ctx'"
  proof
    assume "n @ new = []"
    then have "ctx_step name (K x) ctx c1" "ctx_step name (\<Union>x\<in>set xs. K x) c1 ctx'"
      using n(2) new(2) by simp_all
    from ctx_step_trans[OF this] show "ctx_step name (\<Union>y\<in>set (x # xs). K y) ctx ctx'"
      by simp
  qed
  ultimately show ?case by blast
qed

lemma foldE_ctx:
  assumes "\<forall>x\<in>set xs. \<forall>res ctx s'. f x (sh, res, ctx) = Inr s' \<longrightarrow>
             (\<exists>n ctx'. s' = (sh, res @ n, ctx') \<and> (n = [] \<longrightarrow> ctx_step name (K x) ctx ctx'))"
    and "foldE f xs (sh, res, ctx) = Inr s'"
  shows "\<exists>new ctx'. s' = (sh, res @ new, ctx') \<and>
            (new = [] \<longrightarrow> ctx_step name (\<Union>x\<in>set xs. K x) ctx ctx')"
  using assms
proof (induction xs arbitrary: res ctx)
  case Nil
  then have "s' = (sh, res @ [], ctx)" by simp
  moreover have "ctx_step name (\<Union>x\<in>set []. K x) ctx ctx" by (simp add: ctx_step_refl)
  ultimately show ?case by blast
next
  case (Cons x xs)
  from Cons.prems(2) obtain s1 where s1: "f x (sh, res, ctx) = Inr s1" "foldE f xs s1 = Inr s'"
    by (auto split: sum.splits)
  with Cons.prems(1) obtain n c1 where
    n: "s1 = (sh, res @ n, c1)" "n = [] \<longrightarrow> ctx_step name (K x) ctx c1"
    by (meson list.set_intros(1))
  from Cons.prems(1) have 1: "\<forall>x\<in>set xs. \<forall>res ctx s'. f x (sh, res, ctx) = Inr s' \<longrightarrow>
             (\<exists>n ctx'. s' = (sh, res @ n, ctx') \<and> (n = [] \<longrightarrow> ctx_step name (K x) ctx ctx'))"
    by simp
  from Cons.IH[OF 1, of "res @ n" c1] s1(2) n(1) obtain new ctx' where
    new: "s' = (sh, (res @ n) @ new, ctx')" "new = [] \<longrightarrow> ctx_step name (\<Union>x\<in>set xs. K x) c1 ctx'"
    by blast
  have "s' = (sh, res @ (n @ new), ctx')" using new(1) by simp
  moreover have "n @ new = [] \<longrightarrow> ctx_step name (\<Union>y\<in>set (x # xs). K y) ctx ctx'"
  proof
    assume "n @ new = []"
    then have "ctx_step name (K x) ctx c1" "ctx_step name (\<Union>x\<in>set xs. K x) c1 ctx'"
      using n(2) new(2) by simp_all
    from ctx_step_trans[OF this] show "ctx_step name (\<Union>y\<in>set (x # xs). K y) ctx ctx'"
      by simp
  qed
  ultimately show ?case by blast
qed

lemma across_outer_step:
  assumes b: "1 \<le> max_row sh" "1 \<le> max_column sh"
    and s: "across_outer name ib (records_of sh) i (sh, res, ctx) = Inr s'"
  shows "\<exists>n ctx'. s' = (sh, res @ n, ctx') \<and>
           (n = [] \<longrightarrow> ctx_step name
              {(title sh, rl, cl) | rl cl j. records_of sh ! i = Some rl \<and> skip_blank ib rl = Inr False
                   \<and> j < max_column sh \<and> classes_of sh ! j = Some cl} ctx ctx')"
proof (cases "records_of sh ! i")
  case None
  with s have "s' = (sh, res @ [], ctx)" by (simp add: across_outer_def)
  moreover have "{(title sh, rl, cl) | rl cl j. records_of sh ! i = Some rl \<and> skip_blank ib rl = Inr False
                   \<and> j < max_column sh \<and> classes_of sh ! j = Some cl} = {}"
    using None by simp
  then have "ctx_step name {(title sh, rl, cl) | rl cl j. records_of sh ! i = Some rl
                   \<and> skip_blank ib rl = Inr False
                   \<and> j < max_column sh \<and> classes_of sh ! j = Some cl} ctx ctx"
    by (simp only: ctx_step_refl)
  ultimately show ?thesis by blast
next
  case (Some rl)
  from s Some obtain bb where bb: "skip_blank ib rl = Inr bb"
    by (cases "skip_blank ib rl") (auto simp: across_outer_def skip_blank_def)
  show ?thesis
  proof (cases bb)
    case True
    with s Some bb have "s' = (sh, res @ [], ctx)"
      by (auto simp: across_outer_def skip_blank_def split: if_splits)
    moreover have "{(title sh, rl, cl) | rl cl j. records_of sh ! i = Some rl \<and> skip_blank ib rl = Inr False
                   \<and> j < max_column sh \<and> classes_of sh ! j = Some cl} = {}"
      using Some bb True by simp
    then have "ctx_step name {(title sh, rl, cl) | rl cl j. records_of sh ! i = Some rl
                   \<and> skip_blank ib rl = Inr False
                   \<and> j < max_column sh \<and> classes_of sh ! j = Some cl} ctx ctx"
      by (simp only: ctx_step_refl)
    ultimately show ?thesis by blast
  next
    case False
    obtain r' c' where f: "fold (across_inner name (title sh) (classes_of sh) i rl)
                            [0..<max_column sh] (res, ctx) = (r', c')"
      by (cases "fold (across_inner name (title sh) (classes_of sh) i rl)
                            [0..<max_column sh] (res, ctx)")
    with s Some bb False b have s': "s' = (sh, r', c')"
      by (auto simp: across_outer_def skip_blank_def get_class_names_of split: if_splits)
    have st: "\<forall>x\<in>set [0..<max_column sh]. \<forall>res ctx res' ctx'.
               across_inner name (title sh) (classes_of sh) i rl x (res, ctx) = (res', ctx') \<longrightarrow>
             (\<exists>n. res' = res @ n \<and> (n = [] \<longrightarrow>
                 ctx_step name {k. \<exists>cl. classes_of sh ! x = Some cl \<and> k = (title sh, rl, cl)} ctx ctx'))"
      using across_inner_step by blast
    from fold_ctx[OF st f] obtain new where
      new: "r' = res @ new"
           "new = [] \<longrightarrow> ctx_step name
              (\<Union>x\<in>set [0..<max_column sh]. {k. \<exists>cl. classes_of sh ! x = Some cl \<and> k = (title sh, rl, cl)})
              ctx c'"
      by blast
    have "(\<Union>x\<in>set [0..<max_column sh]. {k. \<exists>cl. classes_of sh ! x = Some cl \<and> k = (title sh, rl, cl)})
        = {(title sh, rl, cl) | rl cl j. records_of sh ! i = Some rl \<and> skip_blank ib rl = Inr False
                   \<and> j < max_column sh \<and> classes_of sh ! j = Some cl}"
      using Some bb False by auto
    with new s' show ?thesis by auto
  qed
qed

lemma across_spec:
  assumes b: "1 \<le> max_row sh" "1 \<le> max_column sh"
    and s: "validate_duplicates_across_workbooks name ib sh res ctx = Inr (sh', res', ctx')"
  shows "sh' = sh \<and> (\<exists>new. res' = res @ new \<and> (new = [] \<longrightarrow> ctx_step name (keys_of ib sh) ctx ctx'))"
proof -
  from s b have f: "foldE (across_outer name ib (records_of sh)) [0..<max_row sh] (sh, res, ctx)
                      = Inr (sh', res', ctx')"
    by (simp add: validate_duplicates_across_workbooks_def get_record_names_of)
  let ?K = "\<lambda>i. {(title sh, rl, cl) | rl cl j. records_of sh ! i = Some rl \<and> skip_blank ib rl = Inr False
                   \<and> j < max_column sh \<and> classes_of sh ! j = Some cl}"
  have st: "\<forall>x\<in>set [0..<max_row sh]. \<forall>res ctx s'.
              across_outer name ib (records_of sh) x (sh, res, ctx) = Inr s' \<longrightarrow>
             (\<exists>n ctx'. s' = (sh, res @ n, ctx') \<and> (n = [] \<longrightarrow> ctx_step name (?K x) ctx ctx'))"
    using across_outer_step[OF b] by blast
  from foldE_ctx[OF st f] obtain new c2 where
    new: "(sh', res', ctx') = (sh, res @ new, c2)"
         "new = [] \<longrightarrow> ctx_step name (\<Union>x\<in>set [0..<max_row sh]. ?K x) ctx c2"
    by blast
  have "(\<Union>x\<in>set [0..<max_row sh]. ?K x) = keys_of ib sh"
    apply (rule set_eqI)
    apply (simp add: keys_of_def Bex_def)
    apply blast
    done
  with new show ?thesis by auto
qed

lemma validate_sheets_spec:
  assumes "\<forall>sh\<in>set wb. 1 \<le> max_row sh \<and> 1 \<le> max_column sh"
    and "validate_sheets name ib wb res ctx = Inr (wb', res', ctx')"
  shows "wb' = wb \<and> (\<exists>new. res' = res @ new \<and>
           (new = [] \<longrightarrow> (\<forall>sh\<in>set wb. valid_sheet ib sh)
               \<and> ctx_step name (\<Union>sh\<in>set wb. keys_of ib sh) ctx ctx'))"
  using assms
proof (induction wb arbitrary: res ctx wb' res' ctx')
  case Nil
  then have "wb' = []" "res' = res @ []" "ctx' = ctx" by simp_all
  moreover have "ctx_step name (\<Union>sh\<in>set []. keys_of ib sh) ctx ctx" by (simp add: ctx_step_refl)
  ultimately show ?case by auto
next
  case (Cons sh wb)
  from Cons.prems(1) have b: "1 \<le> max_row sh" "1 \<le> max_column sh" by simp_all
  from Cons.prems(2) obtain sh1 r1 where
    v1: "validate_sheet name ib sh res = Inr (sh1, r1)"
    by (cases "validate_sheet name ib sh res") auto
  from validate_sheet_spec[OF b v1] obtain n1 where
    n1: "sh1 = sh" "r1 = res @ n1"
        "n1 = [] \<longrightarrow> cells sh (1, 1) = None
              \<and> (\<forall>i<max_column sh. no_dup_from (\<lambda>x. Inr False) (classes_of sh) i)
              \<and> (\<forall>i<max_row sh. no_dup_from (skip_blank ib) (records_of sh) i)
              \<and> (\<not> ib \<longrightarrow> (\<forall>i<max_row sh. \<exists>b. is_blank (records_of sh ! i) = Inr b))"
    by blast
  from validate_empty_cells_spec[OF b, of name r1] obtain n2 where
    n2: "validate_empty_cells name sh r1 = (sh, r1 @ n2)" "n2 = [] \<longrightarrow> no_data_without_label sh"
    by blast
  from Cons.prems(2) v1 n1(1) n2(1) obtain sh3 r3 c3 where
    v3: "validate_duplicates_across_workbooks name ib sh (r1 @ n2) ctx = Inr (sh3, r3, c3)"
    by (cases "validate_duplicates_across_workbooks name ib sh (r1 @ n2) ctx") auto
  from across_spec[OF b v3] obtain n3 where
    n3: "sh3 = sh" "r3 = (r1 @ n2) @ n3" "n3 = [] \<longrightarrow> ctx_step name (keys_of ib sh) ctx c3"
    by blast
  from Cons.prems(2) v1 n1(1) n2(1) v3 n3(1) obtain wb4 where
    v4: "validate_sheets name ib wb r3 c3 = Inr (wb4, res', ctx')" and wb': "wb' = sh # wb4"
    by (cases "validate_sheets name ib wb r3 c3") auto
  from Cons.prems(1) have "\<forall>sh\<in>set wb. 1 \<le> max_row sh \<and> 1 \<le> max_column sh" by simp
  from Cons.IH[OF this v4] obtain n4 where
    n4: "wb4 = wb" "res' = r3 @ n4"
        "n4 = [] \<longrightarrow> (\<forall>sh\<in>set wb. valid_sheet ib sh)
               \<and> ctx_step name (\<Union>sh\<in>set wb. keys_of ib sh) c3 ctx'"
    by blast
  have 1: "wb' = sh # wb" using wb' n4(1) by simp
  have 2: "res' = res @ (n1 @ n2 @ n3 @ n4)" using n1(2) n3(2) n4(2) by simp
  have 3: "n1 @ n2 @ n3 @ n4 = [] \<longrightarrow> (\<forall>s\<in>set (sh # wb). valid_sheet ib s)
               \<and> ctx_step name (\<Union>s\<in>set (sh # wb). keys_of ib s) ctx ctx'"
  proof
    assume "n1 @ n2 @ n3 @ n4 = []"
    then have e: "n1 = []" "n2 = []" "n3 = []" "n4 = []" by simp_all
    have blank: "\<forall>i<max_row sh. \<exists>b. is_blank (records_of sh ! i) = Inr b"
    proof (cases ib)
      case False
      with n1(3) e(1) show ?thesis by simp
    next
      case True
      show ?thesis
      proof (intro allI impI)
        fix i assume i: "i < max_row sh"
        show "\<exists>b. is_blank (records_of sh ! i) = Inr b"
        proof (cases "records_of sh ! i")
          case None
          then have "is_blank (records_of sh ! i) = Inr False" by (simp add: is_blank_def)
          then show ?thesis by blast
        next
          case (Some x)
          from n1(3) e(1) i have "no_dup_from (skip_blank ib) (records_of sh) i" by simp
          with Some True show ?thesis by (auto simp: no_dup_from_def skip_blank_def)
        qed
      qed
    qed
    have "valid_sheet ib sh"
      using n1(3) n2(2) e blank by (simp add: valid_sheet_def)
    moreover have "ctx_step name (keys_of ib sh \<union> (\<Union>sh\<in>set wb. keys_of ib sh)) ctx ctx'"
      using ctx_step_trans n3(3) n4(3) e by blast
    ultimately show "(\<forall>s\<in>set (sh # wb). valid_sheet ib s)
               \<and> ctx_step name (\<Union>s\<in>set (sh # wb). keys_of ib s) ctx ctx'"
      using n4(3) e by simp
  qed
  from 1 2 3 show ?case by blast
qed

text \<open>
  C9. \<^verbatim>\<open>validate_input\<close> leaves the workbook as it was: every cell it reads lies inside the
  bounds of its sheet, so that no cell outside them comes into existence, and it never
  assigns a value. The findings it returns are those it was given, with the new ones
  appended.
\<close>

theorem validate_input_frame:
  assumes "\<forall>sh\<in>set workbook. 1 \<le> max_row sh \<and> 1 \<le> max_column sh"
    and "validate_input workbook name ignore_blanks result context
           = Inr (workbook', result', context')"
  shows "workbook' = workbook \<and> (\<exists>new. result' = result @ new)"
  using validate_sheets_spec[OF assms(1) assms(2)[unfolded validate_input_def]] by blast

theorem validate_input_frame_witness:
  "\<exists>result context.
     validate_input
       [\<lparr>title = ''S'', max_row = 2, max_column = 2,
         cells = map_of [((1, 2), Str ''A''), ((2, 1), Str ''r''), ((2, 2), Num 1)]\<rparr>]
       ''wb'' False [] Map.empty =
     Inr ([\<lparr>title = ''S'', max_row = 2, max_column = 2,
             cells = map_of [((1, 2), Str ''A''), ((2, 1), Str ''r''), ((2, 2), Num 1)]\<rparr>],
          result, context)"
proof -
  let ?wb = "[\<lparr>title = ''S'', max_row = 2, max_column = 2,
         cells = map_of [((1, 2), Str ''A''), ((2, 1), Str ''r''), ((2, 2), Num 1)]\<rparr>]"
  have h: "\<forall>sh\<in>set ?wb. 1 \<le> max_row sh \<and> 1 \<le> max_column sh" by simp
  obtain wb' res' ctx' where r: "validate_input ?wb ''wb'' False [] Map.empty = Inr (wb', res', ctx')"
    by (simp add: validate_defs)
  from validate_input_frame [OF h r] have "wb' = ?wb" by simp
  with r show ?thesis by blast
qed

section \<open>Properties of the merger\<close>

lemma list_index_None: "list_index xs v = None \<longleftrightarrow> v \<notin> set xs"
  by (induction xs) auto

lemma list_index_Some:
  "list_index xs v = Some k \<Longrightarrow> k < length xs \<and> xs ! k = v \<and> (\<forall>j<k. xs ! j \<noteq> v)"
proof (induction xs arbitrary: k)
  case Nil
  then show ?case by simp
next
  case (Cons x xs)
  show ?case
  proof (cases "x = v")
    case True
    with Cons.prems show ?thesis by simp
  next
    case False
    with Cons.prems obtain k' where k': "list_index xs v = Some k'" "k = Suc k'"
      by auto
    from Cons.IH[OF k'(1)] False k'(2) show ?thesis
      by (auto simp: nth_Cons split: nat.splits)
  qed
qed

lemma list_index_first:
  "k < length xs \<Longrightarrow> xs ! k = v \<Longrightarrow> (\<forall>j<k. xs ! j \<noteq> v) \<Longrightarrow> list_index xs v = Some k"
proof (induction xs arbitrary: k)
  case Nil
  then show ?case by simp
next
  case (Cons x xs)
  show ?case
  proof (cases k)
    case 0
    with Cons.prems show ?thesis by simp
  next
    case (Suc k')
    with Cons.prems have "x \<noteq> v" by auto
    moreover have "list_index xs v = Some k'"
      using Cons.prems Suc by (intro Cons.IH) auto
    ultimately show ?thesis using Suc by simp
  qed
qed

lemma mcp_len: "map_classes_post D dcl vs ks D1 \<Longrightarrow> length ks = length vs"
  and mcp_rows: "map_classes_post D dcl vs ks D1 \<Longrightarrow> max_row D1 = max_row D"
  and mcp_title: "map_classes_post D dcl vs ks D1 \<Longrightarrow> title D1 = title D"
  and mcp_mono: "map_classes_post D dcl vs ks D1 \<Longrightarrow> max_column D \<le> max_column D1"
  and mcp_cells: "map_classes_post D dcl vs ks D1 \<Longrightarrow>
                    r \<noteq> 1 \<or> c \<le> max_column D \<or> max_column D1 < c \<Longrightarrow>
                    cells D1 (r, c) = cells D (r, c)"
  and mcp_found: "map_classes_post D dcl vs ks D1 \<Longrightarrow> i < length vs \<Longrightarrow>
                    list_index dcl (vs ! i) = Some k \<Longrightarrow> ks ! i = Some (k + 1)"
  and mcp_new: "map_classes_post D dcl vs ks D1 \<Longrightarrow> i < length vs \<Longrightarrow>
                    list_index dcl (vs ! i) = None \<Longrightarrow>
                  \<exists>c. ks ! i = Some c \<and> max_column D < c \<and> c \<le> max_column D1
                      \<and> (vs ! i \<noteq> None \<longrightarrow> cells D1 (1, c) = vs ! i)"
  and mcp_surj: "map_classes_post D dcl vs ks D1 \<Longrightarrow> max_column D < c \<Longrightarrow> c \<le> max_column D1 \<Longrightarrow>
                  \<exists>i<length vs. list_index dcl (vs ! i) = None \<and> ks ! i = Some c"
  and mcp_inj: "map_classes_post D dcl vs ks D1 \<Longrightarrow> i < j \<Longrightarrow> j < length vs \<Longrightarrow>
                  list_index dcl (vs ! i) = None \<Longrightarrow> list_index dcl (vs ! j) = None \<Longrightarrow>
                  ks ! i \<noteq> ks ! j"
  unfolding map_classes_post_def by blast+

lemma mapper_found:
  "list_index dcl v = Some k \<Longrightarrow> mapper D dcl v = (Some (k + 1), D)"
  by (simp add: mapper_def)

lemma mapper_new:
  assumes "list_index dcl v = None" "1 \<le> max_row D"
  shows "\<exists>Da. mapper D dcl v = (Some (max_column D + 1), Da)
          \<and> max_column Da = max_column D + 1 \<and> max_row Da = max_row D \<and> title Da = title D
          \<and> (\<forall>p. p \<noteq> (1, max_column D + 1) \<longrightarrow> cells Da p = cells D p)
          \<and> (v \<noteq> None \<longrightarrow> cells Da (1, max_column D + 1) = v)"
  using assms
  by (cases v) (auto simp: mapper_def ws_cell_set_def ws_touch_def Let_def max_def)

lemma map_classes_spec:
  assumes "1 \<le> max_row D" and "map_classes D dcl vs = (ks, D1)"
  shows "map_classes_post D dcl vs ks D1"
  using assms
proof (induction vs arbitrary: D ks)
  case Nil
  then show ?case by (simp add: map_classes_post_def)
next
  case (Cons v vs)
  obtain k Da where m: "mapper D dcl v = (k, Da)" by (cases "mapper D dcl v")
  obtain ks' where rest: "map_classes Da dcl vs = (ks', D1)" and ks: "ks = k # ks'"
    using Cons.prems(2) m by (auto split: prod.splits)
  show ?case
  proof (cases "list_index dcl v")
    case (Some i0)
    with m have k: "k = Some (i0 + 1)" and Da: "Da = D" by (simp_all add: mapper_found)
    from Cons.IH[OF Cons.prems(1) rest[unfolded Da]]
    have IH: "map_classes_post D dcl vs ks' D1" .
    show ?thesis
      unfolding map_classes_post_def
    proof (intro conjI allI impI)
      show "length ks = length (v # vs)" using mcp_len[OF IH] ks by simp
      show "max_row D1 = max_row D" using mcp_rows[OF IH] by simp
      show "title D1 = title D" using mcp_title[OF IH] by simp
      show "max_column D \<le> max_column D1" using mcp_mono[OF IH] by simp
    next
      fix r c :: nat assume "r \<noteq> 1 \<or> c \<le> max_column D \<or> max_column D1 < c"
      then show "cells D1 (r, c) = cells D (r, c)" by (rule mcp_cells[OF IH])
    next
      fix i k' assume a: "i < length (v # vs)" "list_index dcl ((v # vs) ! i) = Some k'"
      show "ks ! i = Some (k' + 1)"
      proof (cases i)
        case 0
        with a Some ks k show ?thesis by simp
      next
        case (Suc i')
        with a have "i' < length vs" "list_index dcl (vs ! i') = Some k'" by simp_all
        from mcp_found[OF IH this] Suc ks show ?thesis by simp
      qed
    next
      fix i assume a: "i < length (v # vs)" "list_index dcl ((v # vs) ! i) = None"
      then obtain i' where i: "i = Suc i'" using Some by (cases i) auto
      with a have "i' < length vs" "list_index dcl (vs ! i') = None" by simp_all
      from mcp_new[OF IH this] i ks
      show "\<exists>c. ks ! i = Some c \<and> max_column D < c \<and> c \<le> max_column D1
                \<and> ((v # vs) ! i \<noteq> None \<longrightarrow> cells D1 (1, c) = (v # vs) ! i)"
        by simp
    next
      fix c assume "max_column D < c \<and> c \<le> max_column D1"
      then have "max_column D < c" "c \<le> max_column D1" by simp_all
      from mcp_surj[OF IH this] obtain i where
        "i < length vs" "list_index dcl (vs ! i) = None" "ks' ! i = Some c"
        by blast
      then have "Suc i < length (v # vs) \<and> list_index dcl ((v # vs) ! Suc i) = None \<and> ks ! Suc i = Some c"
        using ks by simp
      then show "\<exists>i<length (v # vs). list_index dcl ((v # vs) ! i) = None \<and> ks ! i = Some c"
        by blast
    next
      fix i j assume a: "i < j \<and> j < length (v # vs) \<and> list_index dcl ((v # vs) ! i) = None
              \<and> list_index dcl ((v # vs) ! j) = None"
      then obtain i' j' where ij: "i = Suc i'" "j = Suc j'"
        using Some by (cases i; cases j) auto
      with a have "i' < j'" "j' < length vs" "list_index dcl (vs ! i') = None"
         "list_index dcl (vs ! j') = None" by simp_all
      from mcp_inj[OF IH this] show "ks ! i \<noteq> ks ! j" using ij ks by simp
    qed
  next
    case None
    from mapper_new[OF None Cons.prems(1)] m obtain
      k: "k = Some (max_column D + 1)" and
      Da: "max_column Da = max_column D + 1" "max_row Da = max_row D" "title Da = title D"
          "\<forall>p. p \<noteq> (1, max_column D + 1) \<longrightarrow> cells Da p = cells D p"
          "v \<noteq> None \<longrightarrow> cells Da (1, max_column D + 1) = v"
      by auto
    have "1 \<le> max_row Da" using Da(2) Cons.prems(1) by simp
    from Cons.IH[OF this rest]
    have IH: "map_classes_post Da dcl vs ks' D1" .
    show ?thesis
      unfolding map_classes_post_def
    proof (intro conjI allI impI)
      show "length ks = length (v # vs)" using mcp_len[OF IH] ks by simp
      show "max_row D1 = max_row D" using mcp_rows[OF IH] Da by simp
      show "title D1 = title D" using mcp_title[OF IH] Da by simp
      show "max_column D \<le> max_column D1" using mcp_mono[OF IH] Da by simp
    next
      fix r c :: nat assume p: "r \<noteq> 1 \<or> c \<le> max_column D \<or> max_column D1 < c"
      then have "r \<noteq> 1 \<or> c \<le> max_column Da \<or> max_column D1 < c" using Da(1) by auto
      from mcp_cells[OF IH this] have "cells D1 (r, c) = cells Da (r, c)" .
      moreover have "(r, c) \<noteq> (1, max_column D + 1)"
        using p mcp_mono[OF IH] Da(1) by auto
      ultimately show "cells D1 (r, c) = cells D (r, c)" using Da(4) by simp
    next
      fix i k' assume a: "i < length (v # vs)" "list_index dcl ((v # vs) ! i) = Some k'"
      then obtain i' where i: "i = Suc i'" using None by (cases i) auto
      with a have "i' < length vs" "list_index dcl (vs ! i') = Some k'" by simp_all
      from mcp_found[OF IH this] i ks show "ks ! i = Some (k' + 1)" by simp
    next
      fix i assume a: "i < length (v # vs)" "list_index dcl ((v # vs) ! i) = None"
      show "\<exists>c. ks ! i = Some c \<and> max_column D < c \<and> c \<le> max_column D1
                \<and> ((v # vs) ! i \<noteq> None \<longrightarrow> cells D1 (1, c) = (v # vs) ! i)"
      proof (cases i)
        case 0
        have "cells D1 (1, max_column D + 1) = cells Da (1, max_column D + 1)"
          using mcp_cells[OF IH, of 1 "max_column D + 1"] Da(1) by simp
        moreover have "max_column D + 1 \<le> max_column D1"
          using mcp_mono[OF IH] Da(1) by simp
        ultimately show ?thesis using 0 ks k Da(5) by simp
      next
        case (Suc i')
        with a have "i' < length vs" "list_index dcl (vs ! i') = None" by simp_all
        from mcp_new[OF IH this] obtain c where "ks' ! i' = Some c" "max_column Da < c" "c \<le> max_column D1"
           "vs ! i' \<noteq> None \<longrightarrow> cells D1 (1, c) = vs ! i'"
          by blast
        then show ?thesis using Suc ks Da(1) by simp
      qed
    next
      fix c assume c: "max_column D < c \<and> c \<le> max_column D1"
      show "\<exists>i<length (v # vs). list_index dcl ((v # vs) ! i) = None \<and> ks ! i = Some c"
      proof (cases "c = max_column D + 1")
        case True
        then have "0 < length (v # vs) \<and> list_index dcl ((v # vs) ! 0) = None \<and> ks ! 0 = Some c"
          using None ks k by simp
        then show ?thesis by blast
      next
        case False
        with c Da(1) have "max_column Da < c" "c \<le> max_column D1" by simp_all
        from mcp_surj[OF IH this] obtain i where
          "i < length vs" "list_index dcl (vs ! i) = None" "ks' ! i = Some c"
          by blast
        then have "Suc i < length (v # vs) \<and> list_index dcl ((v # vs) ! Suc i) = None \<and> ks ! Suc i = Some c"
          using ks by simp
        then show ?thesis by blast
      qed
    next
      fix i j assume a: "i < j \<and> j < length (v # vs) \<and> list_index dcl ((v # vs) ! i) = None
              \<and> list_index dcl ((v # vs) ! j) = None"
      then obtain j' where j: "j = Suc j'" by (cases j) auto
      with a have j': "j' < length vs" "list_index dcl (vs ! j') = None" by simp_all
      from mcp_new[OF IH this] obtain c where c: "ks' ! j' = Some c" "max_column Da < c"
        by blast
      show "ks ! i \<noteq> ks ! j"
      proof (cases i)
        case 0
        then show ?thesis using ks k j c Da(1) by simp
      next
        case (Suc i')
        with a j have "i' < j'" "list_index dcl (vs ! i') = None" by simp_all
        from mcp_inj[OF IH this(1) j'(1) this(2) j'(2)] show ?thesis using Suc j ks by simp
      qed
    qed
  qed
qed

lemma ws_cell_set_in_bounds:
  "r \<le> max_row d \<Longrightarrow> c \<le> max_column d \<Longrightarrow>
   ws_cell_set d r c v = (case v of None \<Rightarrow> d | Some x \<Rightarrow> d\<lparr>cells := (cells d)((r, c) := Some x)\<rparr>)"
  by (simp add: ws_cell_set_def ws_touch_in_bounds split: option.splits)

lemma write_row_spec:
  assumes "irow \<le> max_row d" and "\<forall>icol<n. \<forall>c. ks ! icol = Some c \<longrightarrow> c \<le> max_column d"
  shows "write_row ks row irow n d =
           d\<lparr>cells := (\<lambda>p. if fst p = irow then written ks row n (snd p) (cells d p)
                            else cells d p)\<rparr>"
  using assms(2)
proof (induction n)
  case 0
  have "(\<lambda>p. if fst p = irow then written ks row 0 (snd p) (cells d p) else cells d p) = cells d"
    by (rule ext) simp
  then show ?case by (simp add: write_row_def)
next
  case (Suc n)
  show ?case
  proof (cases "1 \<le> n")
    case False
    then have n: "n = 0" by simp
    have "(\<lambda>p. if fst p = irow then written ks row (Suc 0) (snd p) (cells d p) else cells d p)
            = cells d"
      by (rule ext) simp
    then show ?thesis unfolding n by (simp add: write_row_def)
  next
    case True
    let ?d1 = "d\<lparr>cells := (\<lambda>p. if fst p = irow then written ks row n (snd p) (cells d p)
                            else cells d p)\<rparr>"
    from Suc.prems have "\<forall>icol<n. \<forall>c. ks ! icol = Some c \<longrightarrow> c \<le> max_column d"
      using less_Suc_eq by blast
    from Suc.IH[OF this] have IH: "write_row ks row irow n d = ?d1" .
    have "[1..<Suc n] = [1..<n] @ [n]" using True by simp
    then have "write_row ks row irow (Suc n) d =
          (case ks ! n of None \<Rightarrow> write_row ks row irow n d
           | Some c \<Rightarrow> ws_cell_set (write_row ks row irow n d) irow c (row ! n))"
      unfolding write_row_def by (simp only: fold_append fold_simps comp_def id_def)
    then have step: "write_row ks row irow (Suc n) d =
          (case ks ! n of None \<Rightarrow> ?d1 | Some c \<Rightarrow> ws_cell_set ?d1 irow c (row ! n))"
      by (simp only: IH)
    show ?thesis
    proof (cases "ks ! n")
      case None
      have "(\<lambda>p. if fst p = irow then written ks row (Suc n) (snd p) (cells d p) else cells d p)
          = (\<lambda>p. if fst p = irow then written ks row n (snd p) (cells d p) else cells d p)"
        using None by (intro ext) simp
      then show ?thesis unfolding step using None by simp
    next
      case (Some c)
      with Suc.prems have "c \<le> max_column d" by (meson lessI)
      then have c: "c \<le> max_column ?d1" by simp
      have r: "irow \<le> max_row ?d1" using assms(1) by simp
      show ?thesis
      proof (cases "row ! n")
        case None
        have "(\<lambda>p. if fst p = irow then written ks row (Suc n) (snd p) (cells d p) else cells d p)
          = (\<lambda>p. if fst p = irow then written ks row n (snd p) (cells d p) else cells d p)"
          using None by (intro ext) simp
        then show ?thesis
          unfolding step using Some None by (simp add: ws_cell_set_in_bounds[OF r c])
      next
        case (Some x)
        have "(\<lambda>p. if fst p = irow then written ks row (Suc n) (snd p) (cells d p) else cells d p)
          = (\<lambda>p. if fst p = irow then written ks row n (snd p) (cells d p) else cells d p)
              ((irow, c) := Some x)"
          using Some \<open>ks ! n = Some c\<close> True by (intro ext) auto
        then show ?thesis
          unfolding step using Some \<open>ks ! n = Some c\<close>
          by (simp add: ws_cell_set_in_bounds[OF r c])
      qed
    qed
  qed
qed

lemma written_none:
  "(\<forall>icol. 1 \<le> icol \<and> icol < n \<and> ks ! icol = Some c \<longrightarrow> row ! icol = None) \<Longrightarrow>
   written ks row n c base = base"
proof (induction n)
  case 0
  then show ?case by simp
next
  case (Suc n)
  from Suc.prems have "\<forall>icol. 1 \<le> icol \<and> icol < n \<and> ks ! icol = Some c \<longrightarrow> row ! icol = None"
    by (meson less_SucI)
  from Suc.IH[OF this] have IH: "written ks row n c base = base" .
  have c: "\<not> (1 \<le> n \<and> ks ! n = Some c \<and> row ! n \<noteq> None)"
  proof
    assume a: "1 \<le> n \<and> ks ! n = Some c \<and> row ! n \<noteq> None"
    have "1 \<le> n \<and> n < Suc n \<and> ks ! n = Some c \<longrightarrow> row ! n = None"
      using Suc.prems by (rule spec)
    with a show False by simp
  qed
  have "written ks row (Suc n) c base = written ks row n c base"
    by (simp only: written.simps c if_False)
  with IH show ?case by simp
qed

lemma written_unique:
  assumes "1 \<le> icol" "icol < n" "ks ! icol = Some c" "row ! icol \<noteq> None"
    and "\<forall>j. 1 \<le> j \<and> j < n \<and> ks ! j = Some c \<and> row ! j \<noteq> None \<longrightarrow> j = icol"
  shows "written ks row n c base = row ! icol"
  using assms(2,5)
proof (induction n)
  case 0
  then show ?case by simp
next
  case (Suc n)
  show ?case
  proof (cases "icol = n")
    case True
    have c: "1 \<le> n \<and> ks ! n = Some c \<and> row ! n \<noteq> None"
      using assms(1,3,4) True by simp
    have "written ks row (Suc n) c base = row ! n"
      using c by simp
    with True show ?thesis by simp
  next
    case False
    with Suc.prems(1) have lt: "icol < n" by simp
    from Suc.prems(2) have "\<forall>j. 1 \<le> j \<and> j < n \<and> ks ! j = Some c \<and> row ! j \<noteq> None \<longrightarrow> j = icol"
      by (meson less_SucI)
    from Suc.IH[OF lt this] have IH: "written ks row n c base = row ! icol" .
    have c: "\<not> (1 \<le> n \<and> ks ! n = Some c \<and> row ! n \<noteq> None)"
    proof
      assume a: "1 \<le> n \<and> ks ! n = Some c \<and> row ! n \<noteq> None"
      have "1 \<le> n \<and> n < Suc n \<and> ks ! n = Some c \<and> row ! n \<noteq> None \<longrightarrow> n = icol"
        using Suc.prems(2) by (rule spec)
      with a False show False by simp
    qed
    have "written ks row (Suc n) c base = written ks row n c base"
      by (simp only: written.simps c if_False)
    with IH show ?thesis by simp
  qed
qed

lemma merged_new_sheet: "merged ib (new_sheet t)"
  by (auto simp: merged_def new_sheet_def sheet_ok_def)

lemma sheet_ok_bounds: "sheet_ok S \<Longrightarrow> 1 \<le> max_row S \<and> 1 \<le> max_column S"
  by (simp add: sheet_ok_def)

lemma sheet_ok_outside:
  "sheet_ok S \<Longrightarrow> r < 1 \<or> max_row S < r \<or> c < 1 \<or> max_column S < c \<Longrightarrow> cells S (r, c) = None"
  unfolding sheet_ok_def by (metis not_le)

text \<open>The facts of \<open>valid_sheet\<close>, by position.\<close>

lemma valid_corner: "valid_sheet ib S \<Longrightarrow> cells S (1, 1) = None"
  by (simp add: valid_sheet_def)

lemma valid_no_data:
  "valid_sheet ib S \<Longrightarrow> 2 \<le> r \<Longrightarrow> r \<le> max_row S \<Longrightarrow> 2 \<le> c \<Longrightarrow> c \<le> max_column S \<Longrightarrow>
   cells S (r, c) \<noteq> None \<Longrightarrow> cells S (r, 1) \<noteq> None \<and> cells S (1, c) \<noteq> None"
  unfolding valid_sheet_def no_data_without_label_def by blast

lemma valid_classes_distinct:
  assumes "valid_sheet ib S" "1 \<le> c" "c < c'" "c' \<le> max_column S" "cells S (1, c) \<noteq> None"
  shows "cells S (1, c') \<noteq> cells S (1, c)"
proof -
  obtain x where x: "cells S (1, c) = Some x" using assms(5) by auto
  have i: "c - 1 < max_column S" using assms by simp
  from assms(1) i have nd: "no_dup_from (\<lambda>x. Inr False) (classes_of S) (c - 1)"
    unfolding valid_sheet_def by blast
  have 1: "classes_of S ! (c - 1) = Some x"
    using nth_classes_of[OF i] x assms(2) by simp
  have j: "c' - 1 < max_column S" "c - 1 < c' - 1" using assms by auto
  have "c - 1 < c' - 1 \<and> c' - 1 < length (classes_of S) \<longrightarrow> classes_of S ! (c' - 1) \<noteq> Some x"
    using nd 1 unfolding no_dup_from_def by blast
  with j have "classes_of S ! (c' - 1) \<noteq> Some x" by simp
  moreover have "classes_of S ! (c' - 1) = cells S (1, c')"
    using nth_classes_of[OF j(1)] assms(2,3) by simp
  ultimately show ?thesis using x by simp
qed

lemma valid_records_distinct:
  assumes "valid_sheet ib S" "1 \<le> q" "q < q'" "q' \<le> max_row S" "act ib S q"
  shows "cells S (q', 1) \<noteq> cells S (q, 1)"
proof -
  from assms(5) obtain l where l: "cells S (q, 1) = Some l" "skip_blank ib l = Inr False"
    unfolding act_def by blast
  have i: "q - 1 < max_row S" using assms by simp
  from assms(1) i have nd: "no_dup_from (skip_blank ib) (records_of S) (q - 1)"
    unfolding valid_sheet_def by blast
  have 1: "records_of S ! (q - 1) = Some l"
    using nth_records_of[OF i] l assms(2) by simp
  have j: "q' - 1 < max_row S" "q - 1 < q' - 1" using assms by auto
  have "q - 1 < q' - 1 \<and> q' - 1 < length (records_of S) \<longrightarrow> records_of S ! (q' - 1) \<noteq> Some l"
    using nd 1 l(2) unfolding no_dup_from_def by blast
  with j have "records_of S ! (q' - 1) \<noteq> Some l" by simp
  moreover have "records_of S ! (q' - 1) = cells S (q', 1)"
    using nth_records_of[OF j(1)] assms(2,3) by simp
  ultimately show ?thesis using l by simp
qed

lemma valid_is_blank:
  assumes "valid_sheet ib S" "1 \<le> q" "q \<le> max_row S"
  shows "\<exists>b. is_blank (cells S (q, 1)) = Inr b"
proof -
  have i: "q - 1 < max_row S" using assms by simp
  with assms(1) have "\<exists>b. is_blank (records_of S ! (q - 1)) = Inr b"
    unfolding valid_sheet_def by blast
  then show ?thesis using nth_records_of[OF i] assms(2) by simp
qed

lemma act_distinct:
  assumes "valid_sheet ib S" "1 \<le> q" "q \<le> max_row S" "1 \<le> q'" "q' \<le> max_row S"
    and "act ib S q" "cells S (q', 1) = cells S (q, 1)"
  shows "q' = q"
proof (rule ccontr)
  assume ne: "q' \<noteq> q"
  have a': "act ib S q'" using assms(6,7) by (simp add: act_def)
  show False
  proof (cases "q < q'")
    case True
    from valid_records_distinct[OF assms(1,2) True assms(5,6)] assms(7) show False by simp
  next
    case False
    with ne have "q' < q" by simp
    from valid_records_distinct[OF assms(1,4) this assms(3) a'] assms(7) show False by simp
  qed
qed

lemma classes_distinct:
  assumes "valid_sheet ib S" "1 \<le> c" "c \<le> max_column S" "1 \<le> c'" "c' \<le> max_column S"
    and "cells S (1, c) \<noteq> None" "cells S (1, c') = cells S (1, c)"
  shows "c' = c"
proof (rule ccontr)
  assume ne: "c' \<noteq> c"
  show False
  proof (cases "c < c'")
    case True
    from valid_classes_distinct[OF assms(1,2) True assms(5,6)] assms(7) show False by simp
  next
    case False
    with ne have lt: "c' < c" by simp
    have "cells S (1, c') \<noteq> None" using assms(6,7) by simp
    from valid_classes_distinct[OF assms(1,4) lt assms(3) this] assms(7) show False by simp
  qed
qed


lemma merged_rows_inj:
  assumes "merged ib D" "2 \<le> r" "r \<le> max_row D" "2 \<le> r'" "r' \<le> max_row D"
    and "cells D (r', 1) = cells D (r, 1)"
  shows "r' = r"
proof (rule ccontr)
  assume "r' \<noteq> r"
  then consider "r < r'" | "r' < r" by linarith
  then show False
  proof cases
    case 1
    with assms(1,2,5) have "cells D (r, 1) \<noteq> cells D (r', 1)" unfolding merged_def by blast
    with assms(6) show False by simp
  next
    case 2
    with assms(1,3,4) have "cells D (r', 1) \<noteq> cells D (r, 1)" unfolding merged_def by blast
    with assms(6) show False by simp
  qed
qed

lemma merged_header: "merged ib D \<Longrightarrow> 2 \<le> c \<Longrightarrow> c \<le> max_column D \<Longrightarrow> cells D (1, c) \<noteq> None"
  unfolding merged_def by blast

lemma merged_act: "merged ib D \<Longrightarrow> 2 \<le> r \<Longrightarrow> r \<le> max_row D \<Longrightarrow> act ib D r"
  unfolding merged_def by blast

lemma merged_corner: "merged ib D \<Longrightarrow> cells D (1, 1) = None"
  unfolding merged_def by blast

lemma merged_ok: "merged ib D \<Longrightarrow> sheet_ok D"
  unfolding merged_def by blast

lemma hp_len: "header_post D S ks D1 \<Longrightarrow> length ks = max_column S"
  and hp_rows: "header_post D S ks D1 \<Longrightarrow> max_row D1 = max_row D"
  and hp_title: "header_post D S ks D1 \<Longrightarrow> title D1 = title D"
  and hp_mono: "header_post D S ks D1 \<Longrightarrow> max_column D \<le> max_column D1"
  and hp_cells: "header_post D S ks D1 \<Longrightarrow> r \<noteq> 1 \<or> c \<le> max_column D \<or> max_column D1 < c \<Longrightarrow>
                   cells D1 (r, c) = cells D (r, c)"
  and hp_map: "header_post D S ks D1 \<Longrightarrow> 1 \<le> k \<Longrightarrow> k \<le> max_column S \<Longrightarrow>
                 \<exists>c. ks ! (k - 1) = Some c \<and> 1 \<le> c \<and> c \<le> max_column D1
                     \<and> cells D1 (1, c) = cells S (1, k)"
  and hp_corner: "header_post D S ks D1 \<Longrightarrow> cells D1 (1, 1) = None"
  and hp_header: "header_post D S ks D1 \<Longrightarrow> 2 \<le> c \<Longrightarrow> c \<le> max_column D1 \<Longrightarrow> cells D1 (1, c) \<noteq> None"
  and hp_inj: "header_post D S ks D1 \<Longrightarrow> 2 \<le> c \<Longrightarrow> c < c' \<Longrightarrow> c' \<le> max_column D1 \<Longrightarrow>
                 cells D1 (1, c) \<noteq> cells D1 (1, c')"
  and hp_from: "header_post D S ks D1 \<Longrightarrow> max_column D < c \<Longrightarrow> c \<le> max_column D1 \<Longrightarrow>
                 \<exists>k. 2 \<le> k \<and> k \<le> max_column S \<and> cells S (1, k) = cells D1 (1, c)"
  unfolding header_post_def by blast+

lemma header_post_inj:
  assumes "header_post D S ks D1" "2 \<le> c" "c \<le> max_column D1" "2 \<le> c'" "c' \<le> max_column D1"
    and "cells D1 (1, c') = cells D1 (1, c)"
  shows "c' = c"
proof (rule ccontr)
  assume "c' \<noteq> c"
  then consider "c < c'" | "c' < c" by linarith
  then show False
  proof cases
    case 1
    from hp_inj[OF assms(1,2) 1 assms(5)] assms(6) show False by simp
  next
    case 2
    from hp_inj[OF assms(1,4) 2 assms(3)] assms(6) show False by simp
  qed
qed

lemma map_classes_header:
  assumes D: "merged ib D" and S: "sheet_ok S" "valid_sheet ib S"
    and m: "map_classes D (classes_of D) (classes_of S) = (ks, D1)"
  shows "header_post D S ks D1"
proof -
  let ?dcl = "classes_of D" and ?vs = "classes_of S"
  have bD: "1 \<le> max_row D" "1 \<le> max_column D" using merged_ok[OF D] sheet_ok_bounds by auto
  have bS: "1 \<le> max_row S" "1 \<le> max_column S" using S(1) sheet_ok_bounds by auto
  from map_classes_spec[OF bD(1) m] have P: "map_classes_post D ?dcl ?vs ks D1" .
  have dcl0: "?dcl ! 0 = None" using nth_classes_of[of 0 D] bD merged_corner[OF D] by simp
  have None_in: "None \<in> set ?dcl"
    using dcl0 bD by (metis length_classes_of less_eq_Suc_le nth_mem One_nat_def)
  have in_dcl: "\<And>c. 1 \<le> c \<Longrightarrow> c \<le> max_column D \<Longrightarrow> cells D (1, c) \<in> set ?dcl"
  proof -
    fix c assume c: "1 \<le> c" "c \<le> max_column D"
    then have "c - 1 < max_column D" by simp
    from nth_classes_of[OF this] c have "?dcl ! (c - 1) = cells D (1, c)" by simp
    moreover have "c - 1 < length ?dcl" using c by simp
    ultimately show "cells D (1, c) \<in> set ?dcl" by (metis nth_mem)
  qed
  have vs_nth: "\<And>k. 1 \<le> k \<Longrightarrow> k \<le> max_column S \<Longrightarrow> ?vs ! (k - 1) = cells S (1, k)"
  proof -
    fix k assume k: "1 \<le> k" "k \<le> max_column S"
    then have "k - 1 < max_column S" by simp
    from nth_classes_of[OF this] k show "?vs ! (k - 1) = cells S (1, k)" by simp
  qed
  text \<open>A new column carries the class name of a source column, which the destination did not have.\<close>
  have new_col: "\<And>c. max_column D < c \<Longrightarrow> c \<le> max_column D1 \<Longrightarrow>
        \<exists>k. 1 \<le> k \<and> k \<le> max_column S \<and> ks ! (k - 1) = Some c \<and> cells S (1, k) \<notin> set ?dcl
            \<and> cells D1 (1, c) = cells S (1, k) \<and> cells S (1, k) \<noteq> None"
  proof -
    fix c assume c: "max_column D < c" "c \<le> max_column D1"
    from mcp_surj[OF P c] obtain i where
      i: "i < length ?vs" "list_index ?dcl (?vs ! i) = None" "ks ! i = Some c"
      by blast
    from mcp_new[OF P i(1,2)] i(3) have h: "?vs ! i \<noteq> None \<longrightarrow> cells D1 (1, c) = ?vs ! i"
      by auto
    have notin: "?vs ! i \<notin> set ?dcl" using i(2) by (simp add: list_index_None)
    with None_in have nn: "?vs ! i \<noteq> None" by metis
    have k: "1 \<le> Suc i" "Suc i \<le> max_column S" using i(1) by simp_all
    from vs_nth[OF k] have "?vs ! i = cells S (1, Suc i)" by simp
    with h nn notin i(3) k show "\<exists>k. 1 \<le> k \<and> k \<le> max_column S \<and> ks ! (k - 1) = Some c
            \<and> cells S (1, k) \<notin> set ?dcl
            \<and> cells D1 (1, c) = cells S (1, k) \<and> cells S (1, k) \<noteq> None"
      by (intro exI[of _ "Suc i"]) simp
  qed
  show ?thesis
    unfolding header_post_def
  proof (intro conjI allI impI)
    show "length ks = max_column S" using mcp_len[OF P] by simp
    show "max_row D1 = max_row D" by (rule mcp_rows[OF P])
    show "title D1 = title D" by (rule mcp_title[OF P])
    show "max_column D \<le> max_column D1" by (rule mcp_mono[OF P])
    show "cells D1 (1, 1) = None"
      using mcp_cells[OF P, of 1 1] bD merged_corner[OF D] by simp
  next
    fix r c :: nat assume "r \<noteq> 1 \<or> c \<le> max_column D \<or> max_column D1 < c"
    then show "cells D1 (r, c) = cells D (r, c)" by (rule mcp_cells[OF P])
  next
    fix k assume k: "1 \<le> k \<and> k \<le> max_column S"
    then have i: "k - 1 < length ?vs" by auto
    have v: "?vs ! (k - 1) = cells S (1, k)" using vs_nth k by simp
    show "\<exists>c. ks ! (k - 1) = Some c \<and> 1 \<le> c \<and> c \<le> max_column D1
                 \<and> cells D1 (1, c) = cells S (1, k)"
    proof (cases "list_index ?dcl (?vs ! (k - 1))")
      case (Some j)
      from list_index_Some[OF Some] have j: "j < max_column D" "?dcl ! j = ?vs ! (k - 1)"
        by simp_all
      have "cells D1 (1, j + 1) = cells D (1, j + 1)"
        using mcp_cells[OF P, of 1 "j + 1"] j(1) by simp
      also have "\<dots> = ?dcl ! j" using nth_classes_of[OF j(1)] by simp
      finally have "cells D1 (1, j + 1) = cells S (1, k)" using j(2) v by simp
      moreover have "ks ! (k - 1) = Some (j + 1)" by (rule mcp_found[OF P i Some])
      moreover have "j + 1 \<le> max_column D1" using j(1) mcp_mono[OF P] by simp
      ultimately show ?thesis by (intro exI[of _ "j + 1"]) simp
    next
      case None
      from mcp_new[OF P i None] obtain c where
        c: "ks ! (k - 1) = Some c" "max_column D < c" "c \<le> max_column D1"
           "?vs ! (k - 1) \<noteq> None \<longrightarrow> cells D1 (1, c) = ?vs ! (k - 1)"
        by blast
      have "?vs ! (k - 1) \<notin> set ?dcl" using None by (simp add: list_index_None)
      with None_in have "?vs ! (k - 1) \<noteq> None" by metis
      with c v show ?thesis by (intro exI[of _ c]) simp
    qed
  next
    fix c assume c: "2 \<le> c \<and> c \<le> max_column D1"
    show "cells D1 (1, c) \<noteq> None"
    proof (cases "c \<le> max_column D")
      case True
      then have "cells D1 (1, c) = cells D (1, c)" using mcp_cells[OF P, of 1 c] by simp
      with merged_header[OF D] c True show ?thesis by simp
    next
      case False
      with new_col[of c] c show ?thesis by auto
    qed
  next
    fix c c' assume cc: "2 \<le> c \<and> c < c' \<and> c' \<le> max_column D1"
    show "cells D1 (1, c) \<noteq> cells D1 (1, c')"
    proof (cases "c' \<le> max_column D")
      case True
      then have "cells D1 (1, c) = cells D (1, c)" "cells D1 (1, c') = cells D (1, c')"
        using mcp_cells[OF P, of 1 c] mcp_cells[OF P, of 1 c'] cc by simp_all
      moreover have "cells D (1, c) \<noteq> cells D (1, c')"
        using D cc True unfolding merged_def by blast
      ultimately show ?thesis by simp
    next
      case False
      then have c': "max_column D < c'" "c' \<le> max_column D1" using cc by simp_all
      from new_col[OF c'] obtain k' where
        k': "1 \<le> k'" "k' \<le> max_column S" "ks ! (k' - 1) = Some c'" "cells S (1, k') \<notin> set ?dcl"
            "cells D1 (1, c') = cells S (1, k')" "cells S (1, k') \<noteq> None"
        by blast
      show ?thesis
      proof (cases "c \<le> max_column D")
        case True
        then have "cells D1 (1, c) = cells D (1, c)" using mcp_cells[OF P, of 1 c] by simp
        moreover have "cells D (1, c) \<in> set ?dcl" using in_dcl[of c] cc True by simp
        ultimately show ?thesis using k'(4,5) by metis
      next
        case False
        then have c: "max_column D < c" "c \<le> max_column D1" using cc by simp_all
        from new_col[OF c] obtain k where
          k: "1 \<le> k" "k \<le> max_column S" "ks ! (k - 1) = Some c" "cells S (1, k) \<notin> set ?dcl"
             "cells D1 (1, c) = cells S (1, k)" "cells S (1, k) \<noteq> None"
          by blast
        have "k \<noteq> k'" using k(3) k'(3) cc by auto
        then have "cells S (1, k') \<noteq> cells S (1, k)"
          using classes_distinct[OF S(2) k(1,2) k'(1,2) k(6)] by blast
        with k(5) k'(5) show ?thesis by simp
      qed
    qed
  next
    fix c assume c: "max_column D < c \<and> c \<le> max_column D1"
    then have "max_column D < c" "c \<le> max_column D1" by simp_all
    from new_col[OF this] obtain k where
      k: "1 \<le> k" "k \<le> max_column S" "cells D1 (1, c) = cells S (1, k)" "cells S (1, k) \<noteq> None"
      by blast
    have "k \<noteq> 1" using k(4) valid_corner[OF S(2)] by auto
    with k show "\<exists>k. 2 \<le> k \<and> k \<le> max_column S \<and> cells S (1, k) = cells D1 (1, c)"
      by (intro exI[of _ k]) simp
  qed
qed

lemma ri_title: "rows_inv ib D D1 S r Dc \<Longrightarrow> title Dc = title D1"
  and ri_cols: "rows_inv ib D D1 S r Dc \<Longrightarrow> max_column Dc = max_column D1"
  and ri_rows: "rows_inv ib D D1 S r Dc \<Longrightarrow> max_row D \<le> max_row Dc"
  unfolding rows_inv_def by (elim conjE, assumption)+

lemma ri_header_all: "rows_inv ib D D1 S r Dc \<Longrightarrow> \<forall>c. cells Dc (1, c) = cells D1 (1, c)"
  unfolding rows_inv_def by (elim conjE, assumption)

lemma ri_header: "rows_inv ib D D1 S r Dc \<Longrightarrow> cells Dc (1, c) = cells D1 (1, c)"
  using ri_header_all by blast

lemma ri_inside_all:
  "rows_inv ib D D1 S r Dc \<Longrightarrow> \<forall>r' c'. cells Dc (r', c') \<noteq> None \<longrightarrow>
            1 \<le> r' \<and> r' \<le> max_row Dc \<and> 1 \<le> c' \<and> c' \<le> max_column Dc"
  unfolding rows_inv_def by (elim conjE, assumption)

lemma ri_inside: "rows_inv ib D D1 S r Dc \<Longrightarrow> cells Dc (r', c') \<noteq> None \<Longrightarrow>
                    1 \<le> r' \<and> r' \<le> max_row Dc \<and> 1 \<le> c' \<and> c' \<le> max_column Dc"
  using ri_inside_all by blast

lemma ri_old_all:
  "rows_inv ib D D1 S r Dc \<Longrightarrow> \<forall>r'. r' \<le> max_row D \<longrightarrow> cells Dc (r', 1) = cells D (r', 1)"
  unfolding rows_inv_def by (elim conjE, assumption)

lemma ri_old: "rows_inv ib D D1 S r Dc \<Longrightarrow> r' \<le> max_row D \<Longrightarrow> cells Dc (r', 1) = cells D (r', 1)"
  using ri_old_all by blast

lemma ri_new_all:
  "rows_inv ib D D1 S r Dc \<Longrightarrow> \<forall>r'. max_row D < r' \<and> r' \<le> max_row Dc \<longrightarrow>
            (\<exists>q. 2 \<le> q \<and> q < r \<and> act ib S q \<and> cells Dc (r', 1) = cells S (q, 1)
                 \<and> cells S (q, 1) \<notin> set (records_of D))"
  unfolding rows_inv_def by (elim conjE, assumption)

lemma ri_new: "rows_inv ib D D1 S r Dc \<Longrightarrow> max_row D < r' \<Longrightarrow> r' \<le> max_row Dc \<Longrightarrow>
                 \<exists>q. 2 \<le> q \<and> q < r \<and> act ib S q \<and> cells Dc (r', 1) = cells S (q, 1)
                     \<and> cells S (q, 1) \<notin> set (records_of D)"
  using ri_new_all by blast

lemma ri_new_inj_all:
  "rows_inv ib D D1 S r Dc \<Longrightarrow> \<forall>r1 r2. max_row D < r1 \<and> r1 < r2 \<and> r2 \<le> max_row Dc \<longrightarrow>
            cells Dc (r1, 1) \<noteq> cells Dc (r2, 1)"
  unfolding rows_inv_def by (elim conjE, assumption)

lemma ri_new_inj: "rows_inv ib D D1 S r Dc \<Longrightarrow> max_row D < r1 \<Longrightarrow> r1 < r2 \<Longrightarrow> r2 \<le> max_row Dc \<Longrightarrow>
                 cells Dc (r1, 1) \<noteq> cells Dc (r2, 1)"
  using ri_new_inj_all by blast

lemma ri_present_all:
  "rows_inv ib D D1 S r Dc \<Longrightarrow> \<forall>q. 2 \<le> q \<and> q < r \<and> act ib S q \<longrightarrow>
            (\<exists>r'. 2 \<le> r' \<and> r' \<le> max_row Dc \<and> cells Dc (r', 1) = cells S (q, 1))"
  unfolding rows_inv_def by (elim conjE, assumption)

lemma ri_present: "rows_inv ib D D1 S r Dc \<Longrightarrow> 2 \<le> q \<Longrightarrow> q < r \<Longrightarrow> act ib S q \<Longrightarrow>
                 \<exists>r'. 2 \<le> r' \<and> r' \<le> max_row Dc \<and> cells Dc (r', 1) = cells S (q, 1)"
  using ri_present_all by blast

lemma ri_copied_all:
  "rows_inv ib D D1 S r Dc \<Longrightarrow>
     \<forall>r' c' q k. 2 \<le> r' \<and> r' \<le> max_row Dc \<and> 2 \<le> c' \<and> c' \<le> max_column Dc
            \<and> 2 \<le> q \<and> q < r \<and> act ib S q \<and> cells S (q, 1) = cells Dc (r', 1)
            \<and> 2 \<le> k \<and> k \<le> max_column S \<and> cells S (1, k) = cells Dc (1, c')
            \<and> cells S (q, k) \<noteq> None \<longrightarrow> cells Dc (r', c') = cells S (q, k)"
  unfolding rows_inv_def by (elim conjE, assumption)

lemma ri_copied:
  "rows_inv ib D D1 S r Dc \<Longrightarrow> 2 \<le> r' \<Longrightarrow> r' \<le> max_row Dc \<Longrightarrow> 2 \<le> c' \<Longrightarrow> c' \<le> max_column Dc
   \<Longrightarrow> 2 \<le> q \<Longrightarrow> q < r \<Longrightarrow> act ib S q \<Longrightarrow> cells S (q, 1) = cells Dc (r', 1)
   \<Longrightarrow> 2 \<le> k \<Longrightarrow> k \<le> max_column S \<Longrightarrow> cells S (1, k) = cells Dc (1, c')
   \<Longrightarrow> cells S (q, k) \<noteq> None \<Longrightarrow> cells Dc (r', c') = cells S (q, k)"
  using ri_copied_all[of ib D D1 S r Dc] by blast

lemma ri_kept_all:
  "rows_inv ib D D1 S r Dc \<Longrightarrow>
     \<forall>r' c'. 2 \<le> r' \<and> r' \<le> max_row Dc \<and> 2 \<le> c' \<and> c' \<le> max_column Dc
            \<and> \<not> (\<exists>q k. 2 \<le> q \<and> q < r \<and> act ib S q \<and> cells S (q, 1) = cells Dc (r', 1)
                    \<and> 2 \<le> k \<and> k \<le> max_column S \<and> cells S (1, k) = cells Dc (1, c')
                    \<and> cells S (q, k) \<noteq> None)
            \<longrightarrow> cells Dc (r', c') = cells D (r', c')"
  unfolding rows_inv_def by (elim conjE, assumption)

lemma ri_kept:
  "rows_inv ib D D1 S r Dc \<Longrightarrow> 2 \<le> r' \<Longrightarrow> r' \<le> max_row Dc \<Longrightarrow> 2 \<le> c' \<Longrightarrow> c' \<le> max_column Dc
   \<Longrightarrow> \<not> (\<exists>q k. 2 \<le> q \<and> q < r \<and> act ib S q \<and> cells S (q, 1) = cells Dc (r', 1)
                    \<and> 2 \<le> k \<and> k \<le> max_column S \<and> cells S (1, k) = cells Dc (1, c')
                    \<and> cells S (q, k) \<noteq> None)
   \<Longrightarrow> cells Dc (r', c') = cells D (r', c')"
proof -
  assume I: "rows_inv ib D D1 S r Dc" and a: "2 \<le> r'" "r' \<le> max_row Dc" "2 \<le> c'" "c' \<le> max_column Dc"
    and n: "\<not> (\<exists>q k. 2 \<le> q \<and> q < r \<and> act ib S q \<and> cells S (q, 1) = cells Dc (r', 1)
                    \<and> 2 \<le> k \<and> k \<le> max_column S \<and> cells S (1, k) = cells Dc (1, c')
                    \<and> cells S (q, k) \<noteq> None)"
  from ri_kept_all[OF I] have "2 \<le> r' \<and> r' \<le> max_row Dc \<and> 2 \<le> c' \<and> c' \<le> max_column Dc
            \<and> \<not> (\<exists>q k. 2 \<le> q \<and> q < r \<and> act ib S q \<and> cells S (q, 1) = cells Dc (r', 1)
                    \<and> 2 \<le> k \<and> k \<le> max_column S \<and> cells S (1, k) = cells Dc (1, c')
                    \<and> cells S (q, k) \<noteq> None)
            \<longrightarrow> cells Dc (r', c') = cells D (r', c')" by (elim allE)
  with a n show ?thesis by (elim impE) (intro conjI, assumption+)
qed

lemma rows_invI:
  assumes "title Dc = title D1" "max_column Dc = max_column D1" "max_row D \<le> max_row Dc"
    and "\<And>c. cells Dc (1, c) = cells D1 (1, c)"
    and "\<And>r' c'. cells Dc (r', c') \<noteq> None \<Longrightarrow>
            1 \<le> r' \<and> r' \<le> max_row Dc \<and> 1 \<le> c' \<and> c' \<le> max_column Dc"
    and "\<And>r'. r' \<le> max_row D \<Longrightarrow> cells Dc (r', 1) = cells D (r', 1)"
    and "\<And>r'. max_row D < r' \<Longrightarrow> r' \<le> max_row Dc \<Longrightarrow>
            \<exists>q. 2 \<le> q \<and> q < r \<and> act ib S q \<and> cells Dc (r', 1) = cells S (q, 1)
                 \<and> cells S (q, 1) \<notin> set (records_of D)"
    and "\<And>r1 r2. max_row D < r1 \<Longrightarrow> r1 < r2 \<Longrightarrow> r2 \<le> max_row Dc \<Longrightarrow>
            cells Dc (r1, 1) \<noteq> cells Dc (r2, 1)"
    and "\<And>q. 2 \<le> q \<Longrightarrow> q < r \<Longrightarrow> act ib S q \<Longrightarrow>
            \<exists>r'. 2 \<le> r' \<and> r' \<le> max_row Dc \<and> cells Dc (r', 1) = cells S (q, 1)"
    and "\<And>r' c' q k. 2 \<le> r' \<Longrightarrow> r' \<le> max_row Dc \<Longrightarrow> 2 \<le> c' \<Longrightarrow> c' \<le> max_column Dc
            \<Longrightarrow> 2 \<le> q \<Longrightarrow> q < r \<Longrightarrow> act ib S q \<Longrightarrow> cells S (q, 1) = cells Dc (r', 1)
            \<Longrightarrow> 2 \<le> k \<Longrightarrow> k \<le> max_column S \<Longrightarrow> cells S (1, k) = cells Dc (1, c')
            \<Longrightarrow> cells S (q, k) \<noteq> None \<Longrightarrow> cells Dc (r', c') = cells S (q, k)"
    and "\<And>r' c'. 2 \<le> r' \<Longrightarrow> r' \<le> max_row Dc \<Longrightarrow> 2 \<le> c' \<Longrightarrow> c' \<le> max_column Dc
            \<Longrightarrow> \<not> (\<exists>q k. 2 \<le> q \<and> q < r \<and> act ib S q \<and> cells S (q, 1) = cells Dc (r', 1)
                    \<and> 2 \<le> k \<and> k \<le> max_column S \<and> cells S (1, k) = cells Dc (1, c')
                    \<and> cells S (q, k) \<noteq> None)
            \<Longrightarrow> cells Dc (r', c') = cells D (r', c')"
  shows "rows_inv ib D D1 S r Dc"
  unfolding rows_inv_def
  apply (intro conjI)
            apply (rule assms(1))
           apply (rule assms(2))
          apply (rule assms(3))
         apply (intro allI, rule assms(4))
        apply (intro allI impI, erule assms(5))
       apply (intro allI impI, erule assms(6))
      apply (intro allI impI, elim conjE, erule (1) assms(7))
     apply (intro allI impI, elim conjE, erule (2) assms(8))
    apply (intro allI impI, elim conjE, erule (2) assms(9))
   apply (intro allI impI, elim conjE, erule (11) assms(10))
  apply (intro allI impI, elim conjE, erule (4) assms(11))
  done

lemma rows_inv_start:
  assumes D: "merged ib D" and HP: "header_post D S ks D1"
  shows "rows_inv ib D D1 S 2 D1"
proof (rule rows_invI)
  have ok: "sheet_ok D" by (rule merged_ok[OF D])
  show "title D1 = title D1" "max_column D1 = max_column D1" by simp_all
  show "max_row D \<le> max_row D1" using hp_rows[OF HP] by simp
  show "\<And>c. cells D1 (1, c) = cells D1 (1, c)" by simp
  show "\<And>r' c'. cells D1 (r', c') \<noteq> None \<Longrightarrow>
            1 \<le> r' \<and> r' \<le> max_row D1 \<and> 1 \<le> c' \<and> c' \<le> max_column D1"
  proof -
    fix r' c' assume a: "cells D1 (r', c') \<noteq> None"
    show "1 \<le> r' \<and> r' \<le> max_row D1 \<and> 1 \<le> c' \<and> c' \<le> max_column D1"
    proof (cases "r' \<noteq> 1 \<or> c' \<le> max_column D \<or> max_column D1 < c'")
      case True
      from hp_cells[OF HP this] a have "cells D (r', c') \<noteq> None" by simp
      with ok have "1 \<le> r' \<and> r' \<le> max_row D \<and> 1 \<le> c' \<and> c' \<le> max_column D"
        unfolding sheet_ok_def by blast
      then show ?thesis using hp_rows[OF HP] hp_mono[OF HP] by simp
    next
      case False
      then have "r' = 1" "max_column D < c'" "c' \<le> max_column D1" by simp_all
      then show ?thesis using sheet_ok_bounds[OF ok] hp_rows[OF HP] by simp
    qed
  qed
  show "\<And>r'. r' \<le> max_row D \<Longrightarrow> cells D1 (r', 1) = cells D (r', 1)"
    using hp_cells[OF HP, of _ 1] sheet_ok_bounds[OF ok] by simp
  show "\<And>r'. max_row D < r' \<Longrightarrow> r' \<le> max_row D1 \<Longrightarrow>
            \<exists>q. 2 \<le> q \<and> q < 2 \<and> act ib S q \<and> cells D1 (r', 1) = cells S (q, 1)
                 \<and> cells S (q, 1) \<notin> set (records_of D)"
    using hp_rows[OF HP] by simp
  show "\<And>r1 r2. max_row D < r1 \<Longrightarrow> r1 < r2 \<Longrightarrow> r2 \<le> max_row D1 \<Longrightarrow>
            cells D1 (r1, 1) \<noteq> cells D1 (r2, 1)"
    using hp_rows[OF HP] by simp
  show "\<And>q. 2 \<le> q \<Longrightarrow> q < 2 \<Longrightarrow> act ib S q \<Longrightarrow>
            \<exists>r'. 2 \<le> r' \<and> r' \<le> max_row D1 \<and> cells D1 (r', 1) = cells S (q, 1)"
    by simp
  show "\<And>r' c' q k. 2 \<le> q \<Longrightarrow> q < 2 \<Longrightarrow> cells D1 (r', c') = cells S (q, k)"
    by simp
  show "\<And>r' c'. 2 \<le> r' \<Longrightarrow> cells D1 (r', c') = cells D (r', c')"
  proof -
    fix r' c' :: nat assume "2 \<le> r'"
    then have "r' \<noteq> 1" by simp
    then show "cells D1 (r', c') = cells D (r', c')" using hp_cells[OF HP] by blast
  qed
qed

text \<open>A row that is not processed leaves the invariant as it is.\<close>

lemma rows_inv_skip:
  assumes I: "rows_inv ib D D1 S r Dc" and na: "\<not> act ib S r"
  shows "rows_inv ib D D1 S (Suc r) Dc"
proof (rule rows_invI)
  have lt: "\<And>q. q < Suc r \<Longrightarrow> act ib S q \<Longrightarrow> q < r"
    using na by (metis less_antisym)
  show "title Dc = title D1" by (rule ri_title[OF I])
  show "max_column Dc = max_column D1" by (rule ri_cols[OF I])
  show "max_row D \<le> max_row Dc" by (rule ri_rows[OF I])
  show "\<And>c. cells Dc (1, c) = cells D1 (1, c)" by (rule ri_header[OF I])
  show "\<And>r' c'. cells Dc (r', c') \<noteq> None \<Longrightarrow>
            1 \<le> r' \<and> r' \<le> max_row Dc \<and> 1 \<le> c' \<and> c' \<le> max_column Dc"
    by (rule ri_inside[OF I])
  show "\<And>r'. r' \<le> max_row D \<Longrightarrow> cells Dc (r', 1) = cells D (r', 1)" by (rule ri_old[OF I])
  show "\<And>r'. max_row D < r' \<Longrightarrow> r' \<le> max_row Dc \<Longrightarrow>
            \<exists>q. 2 \<le> q \<and> q < Suc r \<and> act ib S q \<and> cells Dc (r', 1) = cells S (q, 1)
                 \<and> cells S (q, 1) \<notin> set (records_of D)"
  proof -
    fix r' assume "max_row D < r'" "r' \<le> max_row Dc"
    from ri_new[OF I this] obtain q where
      "2 \<le> q" "q < r" "act ib S q" "cells Dc (r', 1) = cells S (q, 1)"
      "cells S (q, 1) \<notin> set (records_of D)" by blast
    then show "\<exists>q. 2 \<le> q \<and> q < Suc r \<and> act ib S q \<and> cells Dc (r', 1) = cells S (q, 1)
                 \<and> cells S (q, 1) \<notin> set (records_of D)"
      by (intro exI[of _ q]) simp
  qed
  show "\<And>r1 r2. max_row D < r1 \<Longrightarrow> r1 < r2 \<Longrightarrow> r2 \<le> max_row Dc \<Longrightarrow>
            cells Dc (r1, 1) \<noteq> cells Dc (r2, 1)"
    by (rule ri_new_inj[OF I])
  show "\<And>q. 2 \<le> q \<Longrightarrow> q < Suc r \<Longrightarrow> act ib S q \<Longrightarrow>
            \<exists>r'. 2 \<le> r' \<and> r' \<le> max_row Dc \<and> cells Dc (r', 1) = cells S (q, 1)"
    by (rule ri_present[OF I _ lt])
  show "\<And>r' c' q k. 2 \<le> r' \<Longrightarrow> r' \<le> max_row Dc \<Longrightarrow> 2 \<le> c' \<Longrightarrow> c' \<le> max_column Dc
            \<Longrightarrow> 2 \<le> q \<Longrightarrow> q < Suc r \<Longrightarrow> act ib S q \<Longrightarrow> cells S (q, 1) = cells Dc (r', 1)
            \<Longrightarrow> 2 \<le> k \<Longrightarrow> k \<le> max_column S \<Longrightarrow> cells S (1, k) = cells Dc (1, c')
            \<Longrightarrow> cells S (q, k) \<noteq> None \<Longrightarrow> cells Dc (r', c') = cells S (q, k)"
    by (rule ri_copied[OF I _ _ _ _ _ lt])
  show "\<And>r' c'. 2 \<le> r' \<Longrightarrow> r' \<le> max_row Dc \<Longrightarrow> 2 \<le> c' \<Longrightarrow> c' \<le> max_column Dc
            \<Longrightarrow> \<not> (\<exists>q k. 2 \<le> q \<and> q < Suc r \<and> act ib S q \<and> cells S (q, 1) = cells Dc (r', 1)
                    \<and> 2 \<le> k \<and> k \<le> max_column S \<and> cells S (1, k) = cells Dc (1, c')
                    \<and> cells S (q, k) \<noteq> None)
            \<Longrightarrow> cells Dc (r', c') = cells D (r', c')"
  proof -
    fix r' c'
    assume a: "2 \<le> r'" "r' \<le> max_row Dc" "2 \<le> c'" "c' \<le> max_column Dc"
      and n: "\<not> (\<exists>q k. 2 \<le> q \<and> q < Suc r \<and> act ib S q \<and> cells S (q, 1) = cells Dc (r', 1)
                    \<and> 2 \<le> k \<and> k \<le> max_column S \<and> cells S (1, k) = cells Dc (1, c')
                    \<and> cells S (q, k) \<noteq> None)"
    have "\<not> (\<exists>q k. 2 \<le> q \<and> q < r \<and> act ib S q \<and> cells S (q, 1) = cells Dc (r', 1)
                    \<and> 2 \<le> k \<and> k \<le> max_column S \<and> cells S (1, k) = cells Dc (1, c')
                    \<and> cells S (q, k) \<noteq> None)"
    proof
      assume "\<exists>q k. 2 \<le> q \<and> q < r \<and> act ib S q \<and> cells S (q, 1) = cells Dc (r', 1)
                    \<and> 2 \<le> k \<and> k \<le> max_column S \<and> cells S (1, k) = cells Dc (1, c')
                    \<and> cells S (q, k) \<noteq> None"
      then obtain q k where "2 \<le> q \<and> q < r \<and> act ib S q \<and> cells S (q, 1) = cells Dc (r', 1)
                    \<and> 2 \<le> k \<and> k \<le> max_column S \<and> cells S (1, k) = cells Dc (1, c')
                    \<and> cells S (q, k) \<noteq> None" by blast
      then have "2 \<le> q \<and> q < Suc r \<and> act ib S q \<and> cells S (q, 1) = cells Dc (r', 1)
                    \<and> 2 \<le> k \<and> k \<le> max_column S \<and> cells S (1, k) = cells Dc (1, c')
                    \<and> cells S (q, k) \<noteq> None" by simp
      with n show False by blast
    qed
    with a show "cells Dc (r', c') = cells D (r', c')" by (rule ri_kept[OF I])
  qed
qed

text \<open>What \<^verbatim>\<open>merge_row\<close> does with a source row, by the kind of the row.\<close>

lemma row_nth:
  "icol < max_column S \<Longrightarrow>
   map (\<lambda>c. cells S (r, c)) [1..<max_column S + 1] ! icol = cells S (r, Suc icol)"
  by (simp del: upt_Suc)

lemma act_bound: "sheet_ok S \<Longrightarrow> act ib S q \<Longrightarrow> 1 \<le> q \<and> q \<le> max_row S"
  unfolding act_def sheet_ok_def by (metis option.distinct(1))

lemma in_records_of: "1 \<le> r \<Longrightarrow> r \<le> max_row D \<Longrightarrow> cells D (r, 1) \<in> set (records_of D)"
proof -
  assume a: "1 \<le> r" "r \<le> max_row D"
  then have i: "r - 1 < max_row D" by simp
  have "records_of D ! (r - 1) = cells D (r, 1)" using nth_records_of[OF i] a by simp
  moreover have "r - 1 < length (records_of D)" using i by (simp add: length_records_of)
  ultimately show ?thesis by (metis nth_mem)
qed

lemma merge_row_skip:
  assumes "valid_sheet ib S" "1 \<le> r" "r \<le> max_row S" "1 \<le> max_column S" "\<not> act ib S r"
  shows "merge_row ib drl ks (map (\<lambda>c. cells S (r, c)) [1..<max_column S + 1]) Dc = Inr Dc"
proof -
  let ?row = "map (\<lambda>c. cells S (r, c)) [1..<max_column S + 1]"
  have r0: "?row ! 0 = cells S (r, 1)" using row_nth[of 0 S r] assms(4) by simp
  show ?thesis
  proof (cases "cells S (r, 1)")
    case None
    then show ?thesis unfolding merge_row_def r0 by simp
  next
    case (Some l)
    from valid_is_blank[OF assms(1,2,3)] obtain b where b: "is_blank (Some l) = Inr b"
      using Some by auto
    from assms(5) Some have "skip_blank ib l \<noteq> Inr False" by (simp add: act_def)
    then have "ib" "b" using b by (auto simp: skip_blank_def split: if_splits)
    then show ?thesis unfolding merge_row_def r0 using Some b by simp
  qed
qed

lemma merge_row_found:
  assumes "cells S (r, 1) = Some l" "skip_blank ib l = Inr False" "1 \<le> max_column S"
    and "list_index drl (Some l) = Some k"
  shows "merge_row ib drl ks (map (\<lambda>c. cells S (r, c)) [1..<max_column S + 1]) Dc
         = Inr (write_row ks (map (\<lambda>c. cells S (r, c)) [1..<max_column S + 1]) (Suc k)
                  (length ks) Dc)"
proof -
  let ?row = "map (\<lambda>c. cells S (r, c)) [1..<max_column S + 1]"
  have r0: "?row ! 0 = Some l" using row_nth[of 0 S r] assms(1,3) by simp
  have sb: "(if ib then is_blank (Some l) else Inr False) = Inr False"
    using assms(2) by (simp add: skip_blank_def)
  show ?thesis
    unfolding merge_row_def r0 sb write_row_def using assms(4) by simp
qed

lemma merge_row_append:
  assumes "cells S (r, 1) = Some l" "skip_blank ib l = Inr False" "1 \<le> max_column S"
    and "list_index drl (Some l) = None"
  shows "merge_row ib drl ks (map (\<lambda>c. cells S (r, c)) [1..<max_column S + 1]) Dc
         = Inr (write_row ks (map (\<lambda>c. cells S (r, c)) [1..<max_column S + 1]) (Suc (max_row Dc))
                  (length ks) (ws_append Dc (Some l)))"
proof -
  let ?row = "map (\<lambda>c. cells S (r, c)) [1..<max_column S + 1]"
  have r0: "?row ! 0 = Some l" using row_nth[of 0 S r] assms(1,3) by simp
  have sb: "(if ib then is_blank (Some l) else Inr False) = Inr False"
    using assms(2) by (simp add: skip_blank_def)
  have mr: "max_row (ws_append Dc (Some l)) = max_row Dc + 1" by (simp add: ws_append_def)
  show ?thesis
    unfolding merge_row_def r0 sb write_row_def using assms(4) by (simp add: Let_def mr)
qed

text \<open>The values that the inner loop leaves in the destination row.\<close>

lemma written_cases:
  "written ks row n c base = base \<or> (\<exists>icol. 1 \<le> icol \<and> icol < n \<and> ks ! icol = Some c)"
proof (induction n)
  case 0
  then show ?case by simp
next
  case (Suc n)
  show ?case
  proof (cases "1 \<le> n \<and> ks ! n = Some c \<and> row ! n \<noteq> None")
    case True
    then have "1 \<le> n \<and> n < Suc n \<and> ks ! n = Some c" by simp
    then show ?thesis by blast
  next
    case False
    have "written ks row (Suc n) c base = written ks row n c base"
      by (simp only: written.simps False if_False)
    with Suc.IH show ?thesis using less_SucI by metis
  qed
qed

lemma hp_map_icol:
  assumes HP: "header_post D S ks D1" and "icol < max_column S"
  shows "\<exists>c. ks ! icol = Some c \<and> 1 \<le> c \<and> c \<le> max_column D1
             \<and> cells D1 (1, c) = cells S (1, Suc icol)"
  using hp_map[OF HP, of "Suc icol"] assms(2) by simp

lemma written_label:
  assumes HP: "header_post D S ks D1" and V: "valid_sheet ib S"
    and r: "2 \<le> r" "r \<le> max_row S"
  shows "written ks (map (\<lambda>c. cells S (r, c)) [1..<max_column S + 1]) (max_column S) 1 base = base"
proof (rule written_none, intro allI impI)
  fix icol
  assume a: "1 \<le> icol \<and> icol < max_column S \<and> ks ! icol = Some 1"
  then have lt: "icol < max_column S" by simp
  from hp_map_icol[OF HP lt] a have "cells D1 (1, 1) = cells S (1, Suc icol)" by auto
  then have "cells S (1, Suc icol) = None" using hp_corner[OF HP] by simp
  moreover have "2 \<le> Suc icol" "Suc icol \<le> max_column S" using a by simp_all
  ultimately have "cells S (r, Suc icol) = None"
    using valid_no_data[OF V r, of "Suc icol"] by blast
  then show "map (\<lambda>c. cells S (r, c)) [1..<max_column S + 1] ! icol = None"
    using row_nth[OF lt] by simp
qed

lemma written_keep:
  assumes HP: "header_post D S ks D1"
    and n: "\<forall>k. 2 \<le> k \<and> k \<le> max_column S \<and> cells S (1, k) = cells D1 (1, c') \<longrightarrow>
                cells S (r, k) = None"
  shows "written ks (map (\<lambda>c. cells S (r, c)) [1..<max_column S + 1]) (max_column S) c' base = base"
proof (rule written_none, intro allI impI)
  fix icol
  assume a: "1 \<le> icol \<and> icol < max_column S \<and> ks ! icol = Some c'"
  then have lt: "icol < max_column S" by simp
  from hp_map_icol[OF HP lt] a have "cells D1 (1, c') = cells S (1, Suc icol)" by auto
  moreover have "2 \<le> Suc icol" "Suc icol \<le> max_column S" using a by simp_all
  moreover have "2 \<le> Suc icol \<and> Suc icol \<le> max_column S \<and> cells S (1, Suc icol) = cells D1 (1, c')
        \<longrightarrow> cells S (r, Suc icol) = None" using n by (rule spec)
  ultimately have "cells S (r, Suc icol) = None" by simp
  then show "map (\<lambda>c. cells S (r, c)) [1..<max_column S + 1] ! icol = None"
    using row_nth[OF lt] by simp
qed

lemma written_copy:
  assumes HP: "header_post D S ks D1" and V: "valid_sheet ib S"
    and c: "2 \<le> c'" "c' \<le> max_column D1"
    and k: "2 \<le> k" "k \<le> max_column S" "cells S (1, k) = cells D1 (1, c')"
    and v: "cells S (r, k) \<noteq> None"
  shows "written ks (map (\<lambda>c. cells S (r, c)) [1..<max_column S + 1]) (max_column S) c' base
         = cells S (r, k)"
proof -
  let ?row = "map (\<lambda>c. cells S (r, c)) [1..<max_column S + 1]"
  have lt: "k - 1 < max_column S" using k by simp
  have sk: "Suc (k - 1) = k" using k by simp
  have nn: "cells D1 (1, c') \<noteq> None" by (rule hp_header[OF HP c])
  from hp_map_icol[OF HP lt] obtain c0 where c0: "ks ! (k - 1) = Some c0" "1 \<le> c0"
    "c0 \<le> max_column D1" "cells D1 (1, c0) = cells S (1, k)" using sk by auto
  have "c0 \<noteq> 1" using c0(4) k(3) nn hp_corner[OF HP] by auto
  with c0(2) have "2 \<le> c0" by simp
  from header_post_inj[OF HP c this c0(3)] c0(4) k(3) have "c0 = c'" by simp
  with c0 have ksk: "ks ! (k - 1) = Some c'" by simp
  have rowk: "?row ! (k - 1) = cells S (r, k)" using row_nth[OF lt] sk by simp
  have uniq: "\<forall>j. 1 \<le> j \<and> j < max_column S \<and> ks ! j = Some c' \<and> ?row ! j \<noteq> None \<longrightarrow> j = k - 1"
  proof (intro allI impI)
    fix j assume a: "1 \<le> j \<and> j < max_column S \<and> ks ! j = Some c' \<and> ?row ! j \<noteq> None"
    then have jl: "j < max_column S" by simp
    from hp_map_icol[OF HP jl] a have "cells D1 (1, c') = cells S (1, Suc j)" by auto
    then have e: "cells S (1, Suc j) = cells S (1, k)" using k(3) by simp
    have kn: "cells S (1, k) \<noteq> None" using nn k(3) by simp
    have "1 \<le> k" "1 \<le> Suc j" "Suc j \<le> max_column S" using k a by simp_all
    from classes_distinct[OF V \<open>1 \<le> k\<close> k(2) this(2,3) kn e] show "j = k - 1" by simp
  qed
  have "1 \<le> k - 1" using k by simp
  from written_unique[OF this lt ksk _ uniq, of base] rowk v show ?thesis by simp
qed

text \<open>
  The step of the invariant for a processed source row: \<open>irow\<close> is the destination row found
  for its record name and \<open>D2\<close> the destination with that row (appended when the name is new).
\<close>

lemma rows_inv_write:
  assumes I: "rows_inv ib D D1 S r Dc" and HP: "header_post D S ks D1"
    and MD: "merged ib D" and OS: "sheet_ok S" and V: "valid_sheet ib S"
    and r: "2 \<le> r" "r \<le> max_row S"
    and L: "cells S (r, 1) = Some l" and A: "act ib S r"
    and A1: "2 \<le> irow"
    and A2: "title D2 = title Dc" "max_column D2 = max_column Dc"
    and A3: "max_row D2 = max (max_row Dc) irow"
    and A4: "cells D2 = (cells Dc)((irow, 1) := Some l)"
    and A5: "irow \<le> max_row Dc \<Longrightarrow> irow \<le> max_row D \<and> cells D (irow, 1) = Some l"
    and A6: "max_row Dc < irow \<Longrightarrow> irow = Suc (max_row Dc) \<and> Some l \<notin> set (records_of D)"
  shows "rows_inv ib D D1 S (Suc r)
           (write_row ks (map (\<lambda>c. cells S (r, c)) [1..<max_column S + 1]) irow (length ks) D2)"
proof -
  define row where "row = map (\<lambda>c. cells S (r, c)) [1..<max_column S + 1]"
  define Dn where "Dn = write_row ks row irow (length ks) D2"
  have n: "length ks = max_column S" by (rule hp_len[OF HP])
  have OD: "sheet_ok D" by (rule merged_ok[OF MD])
  have r1: "1 \<le> r" using r by simp
  have bnd: "\<forall>icol<length ks. \<forall>c. ks ! icol = Some c \<longrightarrow> c \<le> max_column D2"
  proof (intro allI impI)
    fix icol c assume a: "icol < length ks" "ks ! icol = Some c"
    then have "icol < max_column S" using n by simp
    from hp_map_icol[OF HP this] a(2) show "c \<le> max_column D2"
      using A2 ri_cols[OF I] by auto
  qed
  have "irow \<le> max_row D2" using A3 by simp
  from write_row_spec[OF this bnd]
  have E: "Dn = D2\<lparr>cells := (\<lambda>p. if fst p = irow then written ks row (length ks) (snd p) (cells D2 p)
                            else cells D2 p)\<rparr>"
    unfolding Dn_def .
  have Ft: "title Dn = title D1" using E A2 ri_title[OF I] by simp
  have Fc: "max_column Dn = max_column D1" using E A2 ri_cols[OF I] by simp
  have Fr: "max_row Dn = max (max_row Dc) irow" using E A3 by simp
  have Fge: "max_row Dc \<le> max_row Dn" and Fi: "irow \<le> max_row Dn" using Fr by simp_all
  have F2: "\<And>r' c'. r' \<noteq> irow \<Longrightarrow> cells Dn (r', c') = cells Dc (r', c')"
    by (simp add: E A4)
  have F4: "\<And>c'. c' \<noteq> 1 \<Longrightarrow> cells Dn (irow, c')
                = written ks row (max_column S) c' (cells Dc (irow, c'))"
    by (simp add: E A4 n)
  have "cells Dn (irow, 1) = written ks row (max_column S) 1 (Some l)"
    by (simp add: E A4 n)
  then have F3: "cells Dn (irow, 1) = Some l"
    unfolding row_def using written_label[OF HP V r] by simp
  have F5: "\<And>r'. r' \<le> max_row Dn \<Longrightarrow> r' \<noteq> irow \<Longrightarrow> r' \<le> max_row Dc"
  proof -
    fix r' assume a: "r' \<le> max_row Dn" "r' \<noteq> irow"
    show "r' \<le> max_row Dc"
    proof (cases "max_row Dc < irow")
      case True
      from A6[OF this] a Fr show ?thesis by (simp add: max_def)
    next
      case False
      then show ?thesis using a Fr by (simp add: max_def)
    qed
  qed
  have hd: "\<And>c. cells Dn (1, c) = cells D1 (1, c)"
    using F2[of 1] A1 ri_header[OF I] by simp
  have F7: "\<And>r'. r' \<le> max_row Dc \<Longrightarrow> r' \<noteq> irow \<Longrightarrow> cells Dc (r', 1) \<noteq> Some l"
  proof
    fix r' assume a: "r' \<le> max_row Dc" "r' \<noteq> irow" and e: "cells Dc (r', 1) = Some l"
    from ri_inside[OF I, of r' 1] e have r'1: "1 \<le> r'" by simp
    show False
    proof (cases "r' \<le> max_row D")
      case True
      from ri_old[OF I True] e have d: "cells D (r', 1) = Some l" by simp
      have "r' \<noteq> 1" using d merged_corner[OF MD] by auto
      with r'1 have r'2: "2 \<le> r'" by simp
      show False
      proof (cases "irow \<le> max_row Dc")
        case True
        from A5[OF True] have "irow \<le> max_row D" "cells D (irow, 1) = Some l" by simp_all
        from merged_rows_inj[OF MD A1 this(1) r'2 \<open>r' \<le> max_row D\<close>] d this(2) a(2)
        show False by simp
      next
        case False
        then have "Some l \<notin> set (records_of D)" using A6 by simp
        moreover have "cells D (r', 1) \<in> set (records_of D)"
          by (rule in_records_of[OF r'1 True])
        ultimately show False using d by simp
      qed
    next
      case False
      then have "max_row D < r'" by simp
      from ri_new[OF I this a(1)] obtain q where q: "2 \<le> q" "q < r" "act ib S q"
        "cells Dc (r', 1) = cells S (q, 1)" "cells S (q, 1) \<notin> set (records_of D)" by blast
      show False
      proof (cases "irow \<le> max_row Dc")
        case True
        from A5[OF True] have i: "irow \<le> max_row D" "cells D (irow, 1) = Some l" by simp_all
        have "1 \<le> irow" using A1 by simp
        from in_records_of[OF this i(1)] i(2) q(4,5) e show False by simp
      next
        case False
        have "q \<le> max_row S" using q(2) r(2) by simp
        moreover have "1 \<le> q" using q(1) by simp
        moreover have "cells S (q, 1) = cells S (r, 1)" using q(4) e L by simp
        ultimately have "q = r" using act_distinct[OF V r1 r(2) _ _ A] by blast
        with q(2) show False by simp
      qed
    qed
  qed
  have F8: "\<And>r'. r' \<le> max_row Dc \<Longrightarrow> cells Dn (r', 1) = cells Dc (r', 1)"
  proof -
    fix r' assume a: "r' \<le> max_row Dc"
    show "cells Dn (r', 1) = cells Dc (r', 1)"
    proof (cases "r' = irow")
      case True
      with a A5 have "irow \<le> max_row D" "cells D (irow, 1) = Some l" by simp_all
      with ri_old[OF I this(1)] F3 True show ?thesis by simp
    next
      case False
      then show ?thesis by (rule F2)
    qed
  qed
  have qr: "\<And>q. 2 \<le> q \<Longrightarrow> q < Suc r \<Longrightarrow> act ib S q \<Longrightarrow> cells S (q, 1) = Some l \<Longrightarrow> q = r"
  proof -
    fix q assume q: "2 \<le> q" "q < Suc r" "act ib S q" "cells S (q, 1) = Some l"
    have "q \<le> max_row S" using q(2) r(2) by simp
    moreover have "1 \<le> q" using q(1) by simp
    moreover have "cells S (q, 1) = cells S (r, 1)" using q(4) L by simp
    ultimately show "q = r" using act_distinct[OF V r1 r(2) _ _ A] by blast
  qed
  have inv: "rows_inv ib D D1 S (Suc r) Dn"
  proof (rule rows_invI)
    show "title Dn = title D1" by (rule Ft)
    show "max_column Dn = max_column D1" by (rule Fc)
    show "max_row D \<le> max_row Dn" using Fge ri_rows[OF I] by simp
    show "\<And>c. cells Dn (1, c) = cells D1 (1, c)" by (rule hd)
    show "\<And>r' c'. cells Dn (r', c') \<noteq> None \<Longrightarrow>
            1 \<le> r' \<and> r' \<le> max_row Dn \<and> 1 \<le> c' \<and> c' \<le> max_column Dn"
    proof -
      fix r' c' assume a: "cells Dn (r', c') \<noteq> None"
      show "1 \<le> r' \<and> r' \<le> max_row Dn \<and> 1 \<le> c' \<and> c' \<le> max_column Dn"
      proof (cases "r' = irow")
        case False
        with a F2 have "cells Dc (r', c') \<noteq> None" by simp
        from ri_inside[OF I this] show ?thesis using Fge Fc ri_cols[OF I] by simp
      next
        case True
        have rr: "1 \<le> r' \<and> r' \<le> max_row Dn" using True A1 Fi by simp
        show ?thesis
        proof (cases "c' = 1")
          case True
          then show ?thesis using rr Fc ri_cols[OF I] ri_inside[OF I] hp_mono[OF HP]
              sheet_ok_bounds[OF OD] by simp
        next
          case False
          from F4[OF False] a \<open>r' = irow\<close>
          have w: "written ks row (max_column S) c' (cells Dc (irow, c')) \<noteq> None" by simp
          from written_cases[of ks row "max_column S" c' "cells Dc (irow, c')"]
          show ?thesis
          proof
            assume "written ks row (max_column S) c' (cells Dc (irow, c')) = cells Dc (irow, c')"
            with w have "cells Dc (irow, c') \<noteq> None" by simp
            from ri_inside[OF I this] show ?thesis using rr Fc ri_cols[OF I] by simp
          next
            assume "\<exists>icol. 1 \<le> icol \<and> icol < max_column S \<and> ks ! icol = Some c'"
            then obtain icol where i: "icol < max_column S" "ks ! icol = Some c'" by blast
            from hp_map_icol[OF HP i(1)] i(2) have "1 \<le> c' \<and> c' \<le> max_column D1" by auto
            then show ?thesis using rr Fc by simp
          qed
        qed
      qed
    qed
    show "\<And>r'. r' \<le> max_row D \<Longrightarrow> cells Dn (r', 1) = cells D (r', 1)"
    proof -
      fix r' assume a: "r' \<le> max_row D"
      then have "r' \<le> max_row Dc" using ri_rows[OF I] by simp
      from F8[OF this] ri_old[OF I a] show "cells Dn (r', 1) = cells D (r', 1)" by simp
    qed
    show "\<And>r'. max_row D < r' \<Longrightarrow> r' \<le> max_row Dn \<Longrightarrow>
            \<exists>q. 2 \<le> q \<and> q < Suc r \<and> act ib S q \<and> cells Dn (r', 1) = cells S (q, 1)
                 \<and> cells S (q, 1) \<notin> set (records_of D)"
    proof -
      fix r' assume a: "max_row D < r'" "r' \<le> max_row Dn"
      show "\<exists>q. 2 \<le> q \<and> q < Suc r \<and> act ib S q \<and> cells Dn (r', 1) = cells S (q, 1)
                 \<and> cells S (q, 1) \<notin> set (records_of D)"
      proof (cases "r' = irow")
        case True
        have "\<not> irow \<le> max_row Dc" using A5 a(1) True by auto
        then have "Some l \<notin> set (records_of D)" using A6 by simp
        then have "2 \<le> r \<and> r < Suc r \<and> act ib S r \<and> cells Dn (r', 1) = cells S (r, 1)
                 \<and> cells S (r, 1) \<notin> set (records_of D)"
          using r A True F3 L by simp
        then show ?thesis by (rule exI)
      next
        case False
        from F5[OF a(2) False] have le: "r' \<le> max_row Dc" .
        from ri_new[OF I a(1) le] obtain q where q: "2 \<le> q" "q < r" "act ib S q"
          "cells Dc (r', 1) = cells S (q, 1)" "cells S (q, 1) \<notin> set (records_of D)" by blast
        then have "2 \<le> q \<and> q < Suc r \<and> act ib S q \<and> cells Dn (r', 1) = cells S (q, 1)
                 \<and> cells S (q, 1) \<notin> set (records_of D)"
          using F8[OF le] by simp
        then show ?thesis by (rule exI)
      qed
    qed
    show "\<And>r1 r2. max_row D < r1 \<Longrightarrow> r1 < r2 \<Longrightarrow> r2 \<le> max_row Dn \<Longrightarrow>
            cells Dn (r1, 1) \<noteq> cells Dn (r2, 1)"
    proof -
      fix r1 r2 assume a: "max_row D < r1" "r1 < r2" "r2 \<le> max_row Dn"
      show "cells Dn (r1, 1) \<noteq> cells Dn (r2, 1)"
      proof (cases "max_row Dc < irow")
        case True
        from A6[OF True] have i: "irow = Suc (max_row Dc)" by simp
        then have mr: "max_row Dn = irow" using Fr by (simp add: max_def)
        have r1': "r1 \<le> max_row Dc" "r1 \<noteq> irow" using a i mr by simp_all
        show ?thesis
        proof (cases "r2 = irow")
          case True
          then show ?thesis using F3 F8[OF r1'(1)] F7[OF r1'] by simp
        next
          case False
          with a mr i have r2': "r2 \<le> max_row Dc" by simp
          from ri_new_inj[OF I a(1,2) r2'] F8[OF r1'(1)] F8[OF r2'] show ?thesis by simp
        qed
      next
        case False
        then have "max_row Dn = max_row Dc" using Fr by (simp add: max_def)
        with a have r2': "r2 \<le> max_row Dc" and r1': "r1 \<le> max_row Dc" by simp_all
        from ri_new_inj[OF I a(1,2) r2'] F8[OF r1'] F8[OF r2'] show ?thesis by simp
      qed
    qed
    show "\<And>q. 2 \<le> q \<Longrightarrow> q < Suc r \<Longrightarrow> act ib S q \<Longrightarrow>
            \<exists>r'. 2 \<le> r' \<and> r' \<le> max_row Dn \<and> cells Dn (r', 1) = cells S (q, 1)"
    proof -
      fix q assume q: "2 \<le> q" "q < Suc r" "act ib S q"
      show "\<exists>r'. 2 \<le> r' \<and> r' \<le> max_row Dn \<and> cells Dn (r', 1) = cells S (q, 1)"
      proof (cases "q = r")
        case True
        have "2 \<le> irow \<and> irow \<le> max_row Dn \<and> cells Dn (irow, 1) = cells S (q, 1)"
          using A1 Fi F3 L True by simp
        then show ?thesis by (rule exI)
      next
        case False
        with q(2) have "q < r" by simp
        from ri_present[OF I q(1) this q(3)] obtain r' where
          r': "2 \<le> r'" "r' \<le> max_row Dc" "cells Dc (r', 1) = cells S (q, 1)" by blast
        then have "2 \<le> r' \<and> r' \<le> max_row Dn \<and> cells Dn (r', 1) = cells S (q, 1)"
          using F8[OF r'(2)] Fge by simp
        then show ?thesis by (rule exI)
      qed
    qed
    show "\<And>r' c' q k. 2 \<le> r' \<Longrightarrow> r' \<le> max_row Dn \<Longrightarrow> 2 \<le> c' \<Longrightarrow> c' \<le> max_column Dn
            \<Longrightarrow> 2 \<le> q \<Longrightarrow> q < Suc r \<Longrightarrow> act ib S q \<Longrightarrow> cells S (q, 1) = cells Dn (r', 1)
            \<Longrightarrow> 2 \<le> k \<Longrightarrow> k \<le> max_column S \<Longrightarrow> cells S (1, k) = cells Dn (1, c')
            \<Longrightarrow> cells S (q, k) \<noteq> None \<Longrightarrow> cells Dn (r', c') = cells S (q, k)"
    proof -
      fix r' c' q k
      assume a: "2 \<le> r'" "r' \<le> max_row Dn" "2 \<le> c'" "c' \<le> max_column Dn"
        and q: "2 \<le> q" "q < Suc r" "act ib S q" "cells S (q, 1) = cells Dn (r', 1)"
        and k: "2 \<le> k" "k \<le> max_column S" "cells S (1, k) = cells Dn (1, c')"
        and v: "cells S (q, k) \<noteq> None"
      have c1: "c' \<le> max_column D1" using a(4) Fc by simp
      have k1: "cells S (1, k) = cells D1 (1, c')" using k(3) hd by simp
      show "cells Dn (r', c') = cells S (q, k)"
      proof (cases "r' = irow")
        case True
        with q(4) F3 have "cells S (q, 1) = Some l" by simp
        from qr[OF q(1,2,3) this] have qe: "q = r" .
        have "c' \<noteq> 1" using a(3) by simp
        from F4[OF this] have "cells Dn (irow, c')
                = written ks row (max_column S) c' (cells Dc (irow, c'))" .
        also have "\<dots> = cells S (r, k)"
          unfolding row_def using written_copy[OF HP V a(3) c1 k(1,2) k1] v qe by simp
        finally show ?thesis using True qe by simp
      next
        case False
        from F5[OF a(2) False] have le: "r' \<le> max_row Dc" .
        have lab: "cells S (q, 1) = cells Dc (r', 1)" using q(4) F8[OF le] by simp
        have "q \<noteq> r"
        proof
          assume "q = r"
          with lab L have "cells Dc (r', 1) = Some l" by simp
          with F7[OF le False] show False by simp
        qed
        with q(2) have qlt: "q < r" by simp
        have c2: "c' \<le> max_column Dc" using c1 ri_cols[OF I] by simp
        have k2: "cells S (1, k) = cells Dc (1, c')" using k1 ri_header[OF I] by simp
        from ri_copied[OF I a(1) le a(3) c2 q(1) qlt q(3) lab k(1,2) k2 v] F2[OF False]
        show ?thesis by simp
      qed
    qed
    show "\<And>r' c'. 2 \<le> r' \<Longrightarrow> r' \<le> max_row Dn \<Longrightarrow> 2 \<le> c' \<Longrightarrow> c' \<le> max_column Dn
            \<Longrightarrow> \<not> (\<exists>q k. 2 \<le> q \<and> q < Suc r \<and> act ib S q \<and> cells S (q, 1) = cells Dn (r', 1)
                    \<and> 2 \<le> k \<and> k \<le> max_column S \<and> cells S (1, k) = cells Dn (1, c')
                    \<and> cells S (q, k) \<noteq> None)
            \<Longrightarrow> cells Dn (r', c') = cells D (r', c')"
    proof -
      fix r' c'
      assume a: "2 \<le> r'" "r' \<le> max_row Dn" "2 \<le> c'" "c' \<le> max_column Dn"
        and no: "\<not> (\<exists>q k. 2 \<le> q \<and> q < Suc r \<and> act ib S q \<and> cells S (q, 1) = cells Dn (r', 1)
                    \<and> 2 \<le> k \<and> k \<le> max_column S \<and> cells S (1, k) = cells Dn (1, c')
                    \<and> cells S (q, k) \<noteq> None)"
      have c2: "c' \<le> max_column Dc" using a(4) Fc ri_cols[OF I] by simp
      have hd2: "cells Dn (1, c') = cells Dc (1, c')" using hd ri_header[OF I] by simp
      show "cells Dn (r', c') = cells D (r', c')"
      proof (cases "r' = irow")
        case False
        from F5[OF a(2) False] have le: "r' \<le> max_row Dc" .
        have "\<not> (\<exists>q k. 2 \<le> q \<and> q < r \<and> act ib S q \<and> cells S (q, 1) = cells Dc (r', 1)
                    \<and> 2 \<le> k \<and> k \<le> max_column S \<and> cells S (1, k) = cells Dc (1, c')
                    \<and> cells S (q, k) \<noteq> None)"
        proof
          assume "\<exists>q k. 2 \<le> q \<and> q < r \<and> act ib S q \<and> cells S (q, 1) = cells Dc (r', 1)
                    \<and> 2 \<le> k \<and> k \<le> max_column S \<and> cells S (1, k) = cells Dc (1, c')
                    \<and> cells S (q, k) \<noteq> None"
          then obtain q k where "2 \<le> q \<and> q < r \<and> act ib S q \<and> cells S (q, 1) = cells Dc (r', 1)
                    \<and> 2 \<le> k \<and> k \<le> max_column S \<and> cells S (1, k) = cells Dc (1, c')
                    \<and> cells S (q, k) \<noteq> None" by blast
          then have "2 \<le> q \<and> q < Suc r \<and> act ib S q \<and> cells S (q, 1) = cells Dn (r', 1)
                    \<and> 2 \<le> k \<and> k \<le> max_column S \<and> cells S (1, k) = cells Dn (1, c')
                    \<and> cells S (q, k) \<noteq> None"
            using F8[OF le] hd2 by simp
          with no show False by blast
        qed
        from ri_kept[OF I a(1) le a(3) c2 this] F2[OF False] show ?thesis by simp
      next
        case True
        have nk: "\<forall>k. 2 \<le> k \<and> k \<le> max_column S \<and> cells S (1, k) = cells D1 (1, c') \<longrightarrow>
                cells S (r, k) = None"
        proof (intro allI impI)
          fix k assume k: "2 \<le> k \<and> k \<le> max_column S \<and> cells S (1, k) = cells D1 (1, c')"
          show "cells S (r, k) = None"
          proof (rule ccontr)
            assume "cells S (r, k) \<noteq> None"
            with k have "2 \<le> r \<and> r < Suc r \<and> act ib S r \<and> cells S (r, 1) = cells Dn (r', 1)
                    \<and> 2 \<le> k \<and> k \<le> max_column S \<and> cells S (1, k) = cells Dn (1, c')
                    \<and> cells S (r, k) \<noteq> None"
              using r A L F3 True hd by simp
            with no show False by blast
          qed
        qed
        have "c' \<noteq> 1" using a(3) by simp
        from F4[OF this] have "cells Dn (irow, c')
                = written ks row (max_column S) c' (cells Dc (irow, c'))" .
        also have "\<dots> = cells Dc (irow, c')"
          unfolding row_def by (rule written_keep[OF HP nk])
        finally have w: "cells Dn (r', c') = cells Dc (irow, c')" using True by simp
        show ?thesis
        proof (cases "irow \<le> max_row Dc")
          case le: True
          from A5[OF le] have i: "irow \<le> max_row D" "cells D (irow, 1) = Some l" by simp_all
          have lab: "cells Dc (irow, 1) = Some l" using ri_old[OF I i(1)] i(2) by simp
          have "\<not> (\<exists>q k. 2 \<le> q \<and> q < r \<and> act ib S q \<and> cells S (q, 1) = cells Dc (irow, 1)
                    \<and> 2 \<le> k \<and> k \<le> max_column S \<and> cells S (1, k) = cells Dc (1, c')
                    \<and> cells S (q, k) \<noteq> None)"
          proof
            assume "\<exists>q k. 2 \<le> q \<and> q < r \<and> act ib S q \<and> cells S (q, 1) = cells Dc (irow, 1)
                    \<and> 2 \<le> k \<and> k \<le> max_column S \<and> cells S (1, k) = cells Dc (1, c')
                    \<and> cells S (q, k) \<noteq> None"
            then obtain q where q: "2 \<le> q" "q < r" "act ib S q" "cells S (q, 1) = cells Dc (irow, 1)"
              by blast
            have "q < Suc r" using q(2) by simp
            from qr[OF q(1) this q(3)] q(4) lab q(2) show False by simp
          qed
          from ri_kept[OF I A1 le a(3) c2 this] w True show ?thesis by simp
        next
          case gt: False
          have "cells Dc (irow, c') = None"
          proof (rule ccontr)
            assume "cells Dc (irow, c') \<noteq> None"
            from ri_inside[OF I this] gt show False by simp
          qed
          moreover have "max_row D < irow" using gt ri_rows[OF I] by simp
          then have "cells D (irow, c') = None" using sheet_ok_outside[OF OD] by blast
          ultimately show ?thesis using w True by simp
        qed
      qed
    qed
  qed
  then show ?thesis unfolding Dn_def row_def .
qed

text \<open>One iteration of the loop over the source rows keeps the invariant.\<close>

lemma rows_inv_step:
  assumes I: "rows_inv ib D D1 S r Dc" and HP: "header_post D S ks D1"
    and MD: "merged ib D" and OS: "sheet_ok S" and V: "valid_sheet ib S"
    and r: "2 \<le> r" "r \<le> max_row S"
  shows "\<exists>Dn. merge_row ib (records_of D) ks (map (\<lambda>c. cells S (r, c)) [1..<max_column S + 1]) Dc
               = Inr Dn \<and> rows_inv ib D D1 S (Suc r) Dn"
proof (cases "act ib S r")
  case False
  have "1 \<le> r" using r by simp
  from merge_row_skip[OF V this r(2) _ False] sheet_ok_bounds[OF OS]
  have "merge_row ib (records_of D) ks (map (\<lambda>c. cells S (r, c)) [1..<max_column S + 1]) Dc
        = Inr Dc" by simp
  with rows_inv_skip[OF I False] show ?thesis by simp
next
  case True
  then obtain l where l: "cells S (r, 1) = Some l" "skip_blank ib l = Inr False"
    unfolding act_def by blast
  have mc: "1 \<le> max_column S" using sheet_ok_bounds[OF OS] by simp
  show ?thesis
  proof (cases "list_index (records_of D) (Some l)")
    case None
    then have nin: "Some l \<notin> set (records_of D)" by (simp add: list_index_None)
    have gt: "\<not> Suc (max_row Dc) \<le> max_row Dc" by simp
    have "rows_inv ib D D1 S (Suc r)
           (write_row ks (map (\<lambda>c. cells S (r, c)) [1..<max_column S + 1]) (Suc (max_row Dc))
              (length ks) (ws_append Dc (Some l)))"
    proof (rule rows_inv_write[OF I HP MD OS V r l(1) True])
      show "2 \<le> Suc (max_row Dc)" using ri_rows[OF I] sheet_ok_bounds[OF merged_ok[OF MD]] by simp
      show "title (ws_append Dc (Some l)) = title Dc" by (simp add: ws_append_def)
      show "max_column (ws_append Dc (Some l)) = max_column Dc" by (simp add: ws_append_def)
      show "max_row (ws_append Dc (Some l)) = max (max_row Dc) (Suc (max_row Dc))"
        by (simp add: ws_append_def)
      show "cells (ws_append Dc (Some l)) = (cells Dc)((Suc (max_row Dc), 1) := Some l)"
        by (simp add: ws_append_def)
      show "Suc (max_row Dc) \<le> max_row Dc \<Longrightarrow>
            Suc (max_row Dc) \<le> max_row D \<and> cells D (Suc (max_row Dc), 1) = Some l"
        by simp
      show "max_row Dc < Suc (max_row Dc) \<Longrightarrow>
            Suc (max_row Dc) = Suc (max_row Dc) \<and> Some l \<notin> set (records_of D)"
        using nin by simp
    qed
    with merge_row_append[OF l mc None] show ?thesis by simp
  next
    case (Some k)
    from list_index_Some[OF Some] have k: "k < length (records_of D)" "records_of D ! k = Some l"
      by simp_all
    then have kl: "k < max_row D" by (simp add: length_records_of)
    from nth_records_of[OF kl] k(2) have lab: "cells D (Suc k, 1) = Some l" by simp
    have "k \<noteq> 0" using lab merged_corner[OF MD] by (cases k) auto
    then have k2: "2 \<le> Suc k" by simp
    have kD: "Suc k \<le> max_row D" using kl by simp
    then have kDc: "Suc k \<le> max_row Dc" using ri_rows[OF I] by simp
    have labc: "cells Dc (Suc k, 1) = Some l" using ri_old[OF I kD] lab by simp
    have "rows_inv ib D D1 S (Suc r)
           (write_row ks (map (\<lambda>c. cells S (r, c)) [1..<max_column S + 1]) (Suc k)
              (length ks) Dc)"
    proof (rule rows_inv_write[OF I HP MD OS V r l(1) True])
      show "2 \<le> Suc k" by (rule k2)
      show "title Dc = title Dc" "max_column Dc = max_column Dc" by simp_all
      show "max_row Dc = max (max_row Dc) (Suc k)" using kDc by (simp add: max_def)
      show "cells Dc = (cells Dc)((Suc k, 1) := Some l)" using labc by (simp add: fun_upd_idem)
      show "Suc k \<le> max_row Dc \<Longrightarrow> Suc k \<le> max_row D \<and> cells D (Suc k, 1) = Some l"
        using kD lab by simp
      show "max_row Dc < Suc k \<Longrightarrow> Suc k = Suc (max_row Dc) \<and> Some l \<notin> set (records_of D)"
        using kDc by simp
    qed
    with merge_row_found[OF l mc Some] show ?thesis by simp
  qed
qed

text \<open>The whole loop.\<close>

lemma rows_inv_loop:
  assumes HP: "header_post D S ks D1"
    and MD: "merged ib D" and OS: "sheet_ok S" and V: "valid_sheet ib S"
  shows "n < max_row S \<Longrightarrow>
         \<exists>Dn. foldE (\<lambda>r destination.
                  merge_row ib (records_of D) ks
                    (map (\<lambda>c. cells S (r, c)) [1..<max_column S + 1]) destination)
               [2..<Suc (Suc n)] D1 = Inr Dn \<and> rows_inv ib D D1 S (Suc (Suc n)) Dn"
proof (induction n)
  case 0
  have "rows_inv ib D D1 S 2 D1" by (rule rows_inv_start[OF MD HP])
  then show ?case by (simp add: numeral_2_eq_2)
next
  case (Suc n)
  let ?f = "\<lambda>r destination. merge_row ib (records_of D) ks
                    (map (\<lambda>c. cells S (r, c)) [1..<max_column S + 1]) destination"
  from Suc have "n < max_row S" by simp
  from Suc.IH[OF this] obtain Dn where Dn: "foldE ?f [2..<Suc (Suc n)] D1 = Inr Dn"
    "rows_inv ib D D1 S (Suc (Suc n)) Dn" by blast
  have r: "2 \<le> Suc (Suc n)" "Suc (Suc n) \<le> max_row S" using Suc.prems by simp_all
  from rows_inv_step[OF Dn(2) HP MD OS V r] obtain Dm where
    Dm: "?f (Suc (Suc n)) Dn = Inr Dm" "rows_inv ib D D1 S (Suc (Suc (Suc n))) Dm" by blast
  have "[2..<Suc (Suc (Suc n))] = [2..<Suc (Suc n)] @ [Suc (Suc n)]" by simp
  then have "foldE ?f [2..<Suc (Suc (Suc n))] D1 = Inr Dm"
    using Dn(1) Dm(1) by (simp only: foldE_append foldE.simps sum.case)
  with Dm(2) show ?case by blast
qed

lemma merge_unfold:
  assumes "1 \<le> max_row D" "1 \<le> max_column D" "1 \<le> max_row S"
    and "map_classes D (classes_of D) (classes_of S) = (ks, D1)"
  shows "merge D S ib = foldE (\<lambda>r destination.
                  merge_row ib (records_of D) ks
                    (map (\<lambda>c. cells S (r, c)) [1..<max_column S + 1]) destination)
               [2..<max_row S + 1] D1"
  unfolding merge_def
  by (simp add: get_class_names_of[OF assms(1)] get_class_names_of[OF assms(3)]
      get_record_names_of[OF assms(2)] assms(4) del: upt_Suc)

lemma merge_inv:
  assumes MD: "merged ib D" and OS: "sheet_ok S" and V: "valid_sheet ib S"
  shows "\<exists>ks D1 D'. header_post D S ks D1 \<and> merge D S ib = Inr D'
                   \<and> rows_inv ib D D1 S (Suc (max_row S)) D'"
proof -
  obtain ks D1 where m: "map_classes D (classes_of D) (classes_of S) = (ks, D1)"
    by (cases "map_classes D (classes_of D) (classes_of S)") auto
  from map_classes_header[OF MD OS V m] have HP: "header_post D S ks D1" .
  have bD: "1 \<le> max_row D" "1 \<le> max_column D" using sheet_ok_bounds[OF merged_ok[OF MD]] by simp_all
  have bS: "1 \<le> max_row S" using sheet_ok_bounds[OF OS] by simp
  note mu = merge_unfold[OF bD bS m, of ib]
  obtain n where n: "max_row S = Suc n" using bS by (cases "max_row S") auto
  then have "n < max_row S" by simp
  from rows_inv_loop[OF HP MD OS V this] obtain Dn where
    "foldE (\<lambda>r destination.
                  merge_row ib (records_of D) ks
                    (map (\<lambda>c. cells S (r, c)) [1..<max_column S + 1]) destination)
               [2..<Suc (Suc n)] D1 = Inr Dn" "rows_inv ib D D1 S (Suc (Suc n)) Dn" by blast
  then have "merge D S ib = Inr Dn" "rows_inv ib D D1 S (Suc (max_row S)) Dn"
    using mu n by simp_all
  with HP show ?thesis by blast
qed

lemma holdsI:
  "2 \<le> r \<Longrightarrow> r \<le> max_row X \<Longrightarrow> 2 \<le> c \<Longrightarrow> c \<le> max_column X \<Longrightarrow> cells X (r, 1) = Some rl \<Longrightarrow>
   skip_blank ib rl = Inr False \<Longrightarrow> cells X (1, c) = Some cl \<Longrightarrow> cells X (r, c) = Some v \<Longrightarrow>
   holds ib X rl cl v"
  unfolding holds_def by blast

lemma mergedI:
  assumes "sheet_ok D" "cells D (1, 1) = None"
    and "\<And>c. 2 \<le> c \<Longrightarrow> c \<le> max_column D \<Longrightarrow> cells D (1, c) \<noteq> None"
    and "\<And>c c'. 2 \<le> c \<Longrightarrow> c < c' \<Longrightarrow> c' \<le> max_column D \<Longrightarrow> cells D (1, c) \<noteq> cells D (1, c')"
    and "\<And>r. 2 \<le> r \<Longrightarrow> r \<le> max_row D \<Longrightarrow> act ib D r"
    and "\<And>r r'. 2 \<le> r \<Longrightarrow> r < r' \<Longrightarrow> r' \<le> max_row D \<Longrightarrow> cells D (r, 1) \<noteq> cells D (r', 1)"
  shows "merged ib D"
  unfolding merged_def
  apply (intro conjI)
       apply (rule assms(1))
      apply (rule assms(2))
     apply (intro allI impI, elim conjE, erule (1) assms(3))
    apply (intro allI impI, elim conjE, erule (2) assms(4))
   apply (intro allI impI, elim conjE, erule (1) assms(5))
  apply (intro allI impI, elim conjE, erule (2) assms(6))
  done

lemma act_cong: "cells X (r, 1) = cells Y (q, 1) \<Longrightarrow> act ib X r = act ib Y q"
  by (simp add: act_def)

lemma act_label: "cells X (r, 1) = Some l \<Longrightarrow> act ib X r \<longleftrightarrow> skip_blank ib l = Inr False"
  by (simp add: act_def)

text \<open>The invariant makes the destination a merged table again.\<close>

lemma inv_merged:
  assumes I: "rows_inv ib D D1 S r Dc" and HP: "header_post D S ks D1" and MD: "merged ib D"
  shows "merged ib Dc"
proof (rule mergedI)
  have OD: "sheet_ok D" by (rule merged_ok[OF MD])
  have "1 \<le> max_row Dc" using ri_rows[OF I] sheet_ok_bounds[OF OD] by simp
  moreover have "1 \<le> max_column Dc" using ri_cols[OF I] hp_mono[OF HP] sheet_ok_bounds[OF OD] by simp
  ultimately show "sheet_ok Dc" unfolding sheet_ok_def using ri_inside[OF I] by blast
  show "cells Dc (1, 1) = None" using ri_header[OF I] hp_corner[OF HP] by simp
  show "\<And>c. 2 \<le> c \<Longrightarrow> c \<le> max_column Dc \<Longrightarrow> cells Dc (1, c) \<noteq> None"
    using ri_header[OF I] ri_cols[OF I] hp_header[OF HP] by simp
  show "\<And>c c'. 2 \<le> c \<Longrightarrow> c < c' \<Longrightarrow> c' \<le> max_column Dc \<Longrightarrow> cells Dc (1, c) \<noteq> cells Dc (1, c')"
    using ri_header[OF I] ri_cols[OF I] hp_inj[OF HP] by simp
  show "\<And>r'. 2 \<le> r' \<Longrightarrow> r' \<le> max_row Dc \<Longrightarrow> act ib Dc r'"
  proof -
    fix r' assume a: "2 \<le> r'" "r' \<le> max_row Dc"
    show "act ib Dc r'"
    proof (cases "r' \<le> max_row D")
      case True
      from merged_act[OF MD a(1) True] act_cong[OF ri_old[OF I True], of ib] show ?thesis by simp
    next
      case False
      then have "max_row D < r'" by simp
      from ri_new[OF I this a(2)] obtain q where "act ib S q" "cells Dc (r', 1) = cells S (q, 1)"
        by blast
      then show ?thesis using act_cong[of Dc r' S q ib] by simp
    qed
  qed
  show "\<And>r1 r2. 2 \<le> r1 \<Longrightarrow> r1 < r2 \<Longrightarrow> r2 \<le> max_row Dc \<Longrightarrow> cells Dc (r1, 1) \<noteq> cells Dc (r2, 1)"
  proof -
    fix r1 r2 assume a: "2 \<le> r1" "r1 < r2" "r2 \<le> max_row Dc"
    show "cells Dc (r1, 1) \<noteq> cells Dc (r2, 1)"
    proof (cases "r2 \<le> max_row D")
      case True
      then have r1: "r1 \<le> max_row D" using a(2) by simp
      have r2: "2 \<le> r2" using a by simp
      show ?thesis
      proof
        assume "cells Dc (r1, 1) = cells Dc (r2, 1)"
        then have "cells D (r2, 1) = cells D (r1, 1)" using ri_old[OF I True] ri_old[OF I r1] by simp
        from merged_rows_inj[OF MD a(1) r1 r2 True this] a(2) show False by simp
      qed
    next
      case False
      then have gt: "max_row D < r2" by simp
      from ri_new[OF I gt a(3)] obtain q where
        q: "cells Dc (r2, 1) = cells S (q, 1)" "cells S (q, 1) \<notin> set (records_of D)" by blast
      show ?thesis
      proof (cases "r1 \<le> max_row D")
        case True
        have "1 \<le> r1" using a(1) by simp
        from in_records_of[OF this True] ri_old[OF I True] q show ?thesis by auto
      next
        case False
        then have "max_row D < r1" by simp
        from ri_new_inj[OF I this a(2,3)] show ?thesis .
      qed
    qed
  qed
qed

text \<open>The content of the destination after the loop, by names.\<close>

lemma inv_holds_source:
  assumes I: "rows_inv ib D D1 S (Suc (max_row S)) Dc" and HP: "header_post D S ks D1"
    and h: "holds ib S rl cl v"
  shows "holds ib Dc rl cl v"
proof -
  from h obtain q k where q: "2 \<le> q" "q \<le> max_row S" and k: "2 \<le> k" "k \<le> max_column S"
    and l: "cells S (q, 1) = Some rl" "skip_blank ib rl = Inr False"
    "cells S (1, k) = Some cl" "cells S (q, k) = Some v"
    unfolding holds_def by blast
  have aq: "act ib S q" using l(1,2) by (simp add: act_def)
  have ql: "q < Suc (max_row S)" using q(2) by simp
  from ri_present[OF I q(1) ql aq] obtain r' where
    r': "2 \<le> r'" "r' \<le> max_row Dc" "cells Dc (r', 1) = cells S (q, 1)" by blast
  have "1 \<le> k" using k by simp
  from hp_map[OF HP this k(2)] obtain c where c: "1 \<le> c" "c \<le> max_column D1"
    "cells D1 (1, c) = cells S (1, k)" by blast
  have "c \<noteq> 1" using c(3) l(3) hp_corner[OF HP] by auto
  with c(1) have c2: "2 \<le> c" by simp
  have cc: "c \<le> max_column Dc" using c(2) ri_cols[OF I] by simp
  have hd: "cells S (1, k) = cells Dc (1, c)" using c(3) ri_header[OF I] by simp
  have "cells S (q, k) \<noteq> None" using l(4) by simp
  from ri_copied[OF I r'(1,2) c2 cc q(1) ql aq r'(3)[symmetric] k hd this]
  have "cells Dc (r', c) = Some v" using l(4) by simp
  moreover have "cells Dc (r', 1) = Some rl" using r'(3) l(1) by simp
  moreover have "cells Dc (1, c) = Some cl" using hd l(3) by simp
  ultimately show ?thesis using holdsI[OF r'(1,2) c2 cc _ l(2)] by blast
qed

lemma inv_holds_kept:
  assumes I: "rows_inv ib D D1 S (Suc (max_row S)) Dc" and HP: "header_post D S ks D1"
    and OS: "sheet_ok S"
    and h: "holds ib D rl cl v" and n: "\<And>v'. \<not> holds ib S rl cl v'"
  shows "holds ib Dc rl cl v"
proof -
  from h obtain r' c' where r': "2 \<le> r'" "r' \<le> max_row D" and c': "2 \<le> c'" "c' \<le> max_column D"
    and l: "cells D (r', 1) = Some rl" "skip_blank ib rl = Inr False"
    "cells D (1, c') = Some cl" "cells D (r', c') = Some v"
    unfolding holds_def by blast
  have rc: "r' \<le> max_row Dc" using r'(2) ri_rows[OF I] by simp
  have cc: "c' \<le> max_column Dc" using c'(2) ri_cols[OF I] hp_mono[OF HP] by simp
  have lr: "cells Dc (r', 1) = Some rl" using ri_old[OF I r'(2)] l(1) by simp
  have lc: "cells Dc (1, c') = Some cl"
    using ri_header[OF I, of c'] hp_cells[OF HP, of 1 c'] c'(2) l(3) by simp
  have "\<not> (\<exists>q k. 2 \<le> q \<and> q < Suc (max_row S) \<and> act ib S q \<and> cells S (q, 1) = cells Dc (r', 1)
                    \<and> 2 \<le> k \<and> k \<le> max_column S \<and> cells S (1, k) = cells Dc (1, c')
                    \<and> cells S (q, k) \<noteq> None)"
  proof
    assume "\<exists>q k. 2 \<le> q \<and> q < Suc (max_row S) \<and> act ib S q \<and> cells S (q, 1) = cells Dc (r', 1)
                    \<and> 2 \<le> k \<and> k \<le> max_column S \<and> cells S (1, k) = cells Dc (1, c')
                    \<and> cells S (q, k) \<noteq> None"
    then obtain q k where q: "2 \<le> q" "q < Suc (max_row S)" "cells S (q, 1) = cells Dc (r', 1)"
      and k: "2 \<le> k" "k \<le> max_column S" "cells S (1, k) = cells Dc (1, c')"
      and v: "cells S (q, k) \<noteq> None" by blast
    from v obtain v' where v': "cells S (q, k) = Some v'" by auto
    have "q \<le> max_row S" using q(2) by simp
    from holdsI[OF q(1) this k(1,2) _ l(2) _ v'] q(3) k(3) lr lc have "holds ib S rl cl v'" by simp
    with n show False by blast
  qed
  from ri_kept[OF I r'(1) rc c'(1) cc this] l(4) have "cells Dc (r', c') = Some v" by simp
  from holdsI[OF r'(1) rc c'(1) cc lr l(2) lc this] show ?thesis .
qed

lemma inv_holds_origin:
  assumes I: "rows_inv ib D D1 S (Suc (max_row S)) Dc" and HP: "header_post D S ks D1"
    and MD: "merged ib D" and OS: "sheet_ok S"
    and h: "holds ib Dc rl cl v"
  shows "holds ib S rl cl v \<or> (holds ib D rl cl v \<and> (\<forall>v'. \<not> holds ib S rl cl v'))"
proof -
  have OD: "sheet_ok D" by (rule merged_ok[OF MD])
  from h obtain r' c' where r': "2 \<le> r'" "r' \<le> max_row Dc" and c': "2 \<le> c'" "c' \<le> max_column Dc"
    and l: "cells Dc (r', 1) = Some rl" "skip_blank ib rl = Inr False"
    "cells Dc (1, c') = Some cl" "cells Dc (r', c') = Some v"
    unfolding holds_def by blast
  show ?thesis
  proof (cases "\<exists>q k. 2 \<le> q \<and> q < Suc (max_row S) \<and> act ib S q \<and> cells S (q, 1) = cells Dc (r', 1)
                    \<and> 2 \<le> k \<and> k \<le> max_column S \<and> cells S (1, k) = cells Dc (1, c')
                    \<and> cells S (q, k) \<noteq> None")
    case True
    then obtain q k where q: "2 \<le> q" "q < Suc (max_row S)" "act ib S q"
      "cells S (q, 1) = cells Dc (r', 1)"
      and k: "2 \<le> k" "k \<le> max_column S" "cells S (1, k) = cells Dc (1, c')"
      and v: "cells S (q, k) \<noteq> None" by blast
    from ri_copied[OF I r' c' q k v] l(4) have v': "cells S (q, k) = Some v" by simp
    have "q \<le> max_row S" using q(2) by simp
    from holdsI[OF q(1) this k(1,2) _ l(2) _ v'] q(4) k(3) l(1,3) have "holds ib S rl cl v" by simp
    then show ?thesis ..
  next
    case False
    from ri_kept[OF I r' c' False] l(4) have v': "cells D (r', c') = Some v" by simp
    then have "cells D (r', c') \<noteq> None" by simp
    with OD have b: "r' \<le> max_row D" "c' \<le> max_column D" unfolding sheet_ok_def by blast+
    have lr: "cells D (r', 1) = Some rl" using ri_old[OF I b(1)] l(1) by simp
    have lc: "cells D (1, c') = Some cl"
      using ri_header[OF I, of c'] hp_cells[OF HP, of 1 c'] b(2) l(3) by simp
    from holdsI[OF r'(1) b(1) c'(1) b(2) lr l(2) lc v'] have hD: "holds ib D rl cl v" .
    have "\<forall>v'. \<not> holds ib S rl cl v'"
    proof (intro allI notI)
      fix v' assume "holds ib S rl cl v'"
      then obtain q k where q: "2 \<le> q" "q \<le> max_row S" and k: "2 \<le> k" "k \<le> max_column S"
        and m: "cells S (q, 1) = Some rl" "cells S (1, k) = Some cl" "cells S (q, k) = Some v'"
        unfolding holds_def by blast
      have "act ib S q" using m(1) l(2) by (simp add: act_def)
      then have "2 \<le> q \<and> q < Suc (max_row S) \<and> act ib S q \<and> cells S (q, 1) = cells Dc (r', 1)
                    \<and> 2 \<le> k \<and> k \<le> max_column S \<and> cells S (1, k) = cells Dc (1, c')
                    \<and> cells S (q, k) \<noteq> None"
        using q k m l by simp
      with False show False by blast
    qed
    with hD show ?thesis by blast
  qed
qed

lemma inv_rlabels:
  assumes I: "rows_inv ib D D1 S (Suc (max_row S)) Dc" and MD: "merged ib D" and OS: "sheet_ok S"
  shows "rlabels ib Dc = rlabels ib D \<union> rlabels ib S"
proof (intro set_eqI iffI)
  fix l assume "l \<in> rlabels ib Dc"
  then obtain r' where r': "2 \<le> r'" "r' \<le> max_row Dc" "cells Dc (r', 1) = Some l"
    "skip_blank ib l = Inr False" unfolding rlabels_def by blast
  show "l \<in> rlabels ib D \<union> rlabels ib S"
  proof (cases "r' \<le> max_row D")
    case True
    with ri_old[OF I True] r' have "l \<in> rlabels ib D" unfolding rlabels_def by auto
    then show ?thesis ..
  next
    case False
    then have "max_row D < r'" by simp
    from ri_new[OF I this r'(2)] obtain q where q: "2 \<le> q" "q < Suc (max_row S)"
      "cells Dc (r', 1) = cells S (q, 1)" by blast
    then have "2 \<le> q \<and> q \<le> max_row S \<and> cells S (q, 1) = Some l \<and> skip_blank ib l = Inr False"
      using r' by simp
    then have "l \<in> rlabels ib S" unfolding rlabels_def by blast
    then show ?thesis ..
  qed
next
  fix l assume "l \<in> rlabels ib D \<union> rlabels ib S"
  then show "l \<in> rlabels ib Dc"
  proof
    assume "l \<in> rlabels ib D"
    then obtain r' where r': "2 \<le> r'" "r' \<le> max_row D" "cells D (r', 1) = Some l"
      "skip_blank ib l = Inr False" unfolding rlabels_def by blast
    then have "2 \<le> r' \<and> r' \<le> max_row Dc \<and> cells Dc (r', 1) = Some l \<and> skip_blank ib l = Inr False"
      using ri_old[OF I r'(2)] ri_rows[OF I] by simp
    then show ?thesis unfolding rlabels_def by blast
  next
    assume "l \<in> rlabels ib S"
    then obtain q where q: "2 \<le> q" "q \<le> max_row S" "cells S (q, 1) = Some l"
      "skip_blank ib l = Inr False" unfolding rlabels_def by blast
    have a: "act ib S q" using q(3,4) by (simp add: act_def)
    have "q < Suc (max_row S)" using q(2) by simp
    from ri_present[OF I q(1) this a] obtain r' where
      "2 \<le> r'" "r' \<le> max_row Dc" "cells Dc (r', 1) = cells S (q, 1)" by blast
    then have "2 \<le> r' \<and> r' \<le> max_row Dc \<and> cells Dc (r', 1) = Some l \<and> skip_blank ib l = Inr False"
      using q by simp
    then show ?thesis unfolding rlabels_def by blast
  qed
qed

lemma inv_clabels:
  assumes I: "rows_inv ib D D1 S r Dc" and HP: "header_post D S ks D1"
  shows "clabels Dc = clabels D \<union> clabels S"
proof (intro set_eqI iffI)
  fix l assume "l \<in> clabels Dc"
  then obtain c where c: "2 \<le> c" "c \<le> max_column Dc" "cells Dc (1, c) = Some l"
    unfolding clabels_def by blast
  have c1: "cells D1 (1, c) = Some l" using c(3) ri_header[OF I] by simp
  show "l \<in> clabels D \<union> clabels S"
  proof (cases "c \<le> max_column D")
    case True
    then have "cells D (1, c) = Some l" using hp_cells[OF HP, of 1 c] c1 by simp
    with c(1) True have "l \<in> clabels D" unfolding clabels_def by blast
    then show ?thesis ..
  next
    case False
    then have "max_column D < c" "c \<le> max_column D1" using c(2) ri_cols[OF I] by simp_all
    from hp_from[OF HP this] obtain k where "2 \<le> k" "k \<le> max_column S"
      "cells S (1, k) = cells D1 (1, c)" by blast
    then have "2 \<le> k \<and> k \<le> max_column S \<and> cells S (1, k) = Some l" using c1 by simp
    then have "l \<in> clabels S" unfolding clabels_def by blast
    then show ?thesis ..
  qed
next
  fix l assume "l \<in> clabels D \<union> clabels S"
  then show "l \<in> clabels Dc"
  proof
    assume "l \<in> clabels D"
    then obtain c where c: "2 \<le> c" "c \<le> max_column D" "cells D (1, c) = Some l"
      unfolding clabels_def by blast
    then have "2 \<le> c \<and> c \<le> max_column Dc \<and> cells Dc (1, c) = Some l"
      using ri_header[OF I, of c] hp_cells[OF HP, of 1 c] ri_cols[OF I] hp_mono[OF HP] by simp
    then show ?thesis unfolding clabels_def by blast
  next
    assume "l \<in> clabels S"
    then obtain k where k: "2 \<le> k" "k \<le> max_column S" "cells S (1, k) = Some l"
      unfolding clabels_def by blast
    have "1 \<le> k" using k by simp
    from hp_map[OF HP this k(2)] obtain c where c: "1 \<le> c" "c \<le> max_column D1"
      "cells D1 (1, c) = cells S (1, k)" by blast
    have "c \<noteq> 1" using c(3) k(3) hp_corner[OF HP] by auto
    with c(1) have "2 \<le> c" by simp
    then have "2 \<le> c \<and> c \<le> max_column Dc \<and> cells Dc (1, c) = Some l"
      using c k(3) ri_header[OF I, of c] ri_cols[OF I] by simp
    then show ?thesis unfolding clabels_def by blast
  qed
qed

text \<open>
  What a merge does, by names: the destination is a merged table again, its names are those
  it had and those of the source, every value of the source is in it, and a value it had
  stays where the source has none.
\<close>

lemma merge_spec:
  assumes MD: "merged ib D" and OS: "sheet_ok S" and V: "valid_sheet ib S"
  shows "\<exists>D'. merge D S ib = Inr D' \<and> merged ib D' \<and> title D' = title D
              \<and> rlabels ib D' = rlabels ib D \<union> rlabels ib S
              \<and> clabels D' = clabels D \<union> clabels S
              \<and> (\<forall>rl cl v. holds ib D' rl cl v \<longleftrightarrow>
                    holds ib S rl cl v \<or> (holds ib D rl cl v \<and> (\<forall>v'. \<not> holds ib S rl cl v')))"
proof -
  from merge_inv[OF MD OS V] obtain ks D1 D' where HP: "header_post D S ks D1"
    and m: "merge D S ib = Inr D'" and I: "rows_inv ib D D1 S (Suc (max_row S)) D'" by blast
  have t: "title D' = title D" using ri_title[OF I] hp_title[OF HP] by simp
  have h: "\<forall>rl cl v. holds ib D' rl cl v \<longleftrightarrow>
                    holds ib S rl cl v \<or> (holds ib D rl cl v \<and> (\<forall>v'. \<not> holds ib S rl cl v'))"
  proof (intro allI iffI)
    fix rl cl v assume "holds ib D' rl cl v"
    from inv_holds_origin[OF I HP MD OS this]
    show "holds ib S rl cl v \<or> (holds ib D rl cl v \<and> (\<forall>v'. \<not> holds ib S rl cl v'))" .
  next
    fix rl cl v
    assume "holds ib S rl cl v \<or> (holds ib D rl cl v \<and> (\<forall>v'. \<not> holds ib S rl cl v'))"
    then show "holds ib D' rl cl v"
    proof
      assume "holds ib S rl cl v"
      from inv_holds_source[OF I HP this] show ?thesis .
    next
      assume a: "holds ib D rl cl v \<and> (\<forall>v'. \<not> holds ib S rl cl v')"
      then have "holds ib D rl cl v" "\<And>v'. \<not> holds ib S rl cl v'" by simp_all
      from inv_holds_kept[OF I HP OS this] show ?thesis .
    qed
  qed
  from m inv_merged[OF I HP MD] t inv_rlabels[OF I MD OS] inv_clabels[OF I HP] h
  show ?thesis by blast
qed

lemma cell_triple_iff:
  "x \<in> set (cell_triple X r c) \<longleftrightarrow>
     cells X (r, 1) = Some (fst x) \<and> cells X (1, c) = Some (fst (snd x))
     \<and> cells X (r, c) = Some (snd (snd x))"
  by (cases x) (auto simp: cell_triple_def split: option.splits)

lemma triples_iff:
  "(rl, cl, v) \<in> triples X \<longleftrightarrow>
     (\<exists>r c. 2 \<le> r \<and> r \<le> max_row X \<and> 2 \<le> c \<and> c \<le> max_column X
            \<and> cells X (r, 1) = Some rl \<and> cells X (1, c) = Some cl \<and> cells X (r, c) = Some v)"
proof -
  have "(rl, cl, v) \<in> triples X \<longleftrightarrow>
        (\<exists>r\<in>set [2..<max_row X + 1]. \<exists>c\<in>set [2..<max_column X + 1].
            (rl, cl, v) \<in> set (cell_triple X r c))"
    unfolding triples_def by (simp del: upt_Suc)
  also have "\<dots> \<longleftrightarrow> (\<exists>r c. 2 \<le> r \<and> r \<le> max_row X \<and> 2 \<le> c \<and> c \<le> max_column X
            \<and> cells X (r, 1) = Some rl \<and> cells X (1, c) = Some cl \<and> cells X (r, c) = Some v)"
    unfolding cell_triple_iff by (simp del: upt_Suc add: Bex_def) (metis less_Suc_eq_le)
  finally show ?thesis .
qed

lemma triples_merged:
  assumes "merged ib X"
  shows "(rl, cl, v) \<in> triples X \<longleftrightarrow> holds ib X rl cl v"
proof
  assume "(rl, cl, v) \<in> triples X"
  then obtain r c where a: "2 \<le> r" "r \<le> max_row X" "2 \<le> c" "c \<le> max_column X"
    "cells X (r, 1) = Some rl" "cells X (1, c) = Some cl" "cells X (r, c) = Some v"
    unfolding triples_iff by blast
  from merged_act[OF assms a(1,2)] a(5) have "skip_blank ib rl = Inr False" by (simp add: act_def)
  from holdsI[OF a(1,2,3,4,5) this a(6,7)] show "holds ib X rl cl v" .
next
  assume "holds ib X rl cl v"
  then show "(rl, cl, v) \<in> triples X" unfolding holds_def triples_iff by blast
qed

lemma triples_eqI:
  assumes "merged ib X" "merged ib Y" "\<And>rl cl v. holds ib X rl cl v \<longleftrightarrow> holds ib Y rl cl v"
  shows "triples X = triples Y"
proof (intro set_eqI)
  fix x :: "val \<times> val \<times> val"
  obtain rl cl v where x: "x = (rl, cl, v)" by (cases x) auto
  show "x \<in> triples X \<longleftrightarrow> x \<in> triples Y"
    unfolding x triples_merged[OF assms(1)] triples_merged[OF assms(2)] by (rule assms(3))
qed

lemma holds_new_sheet: "\<not> holds ib (new_sheet t) rl cl v"
  by (simp add: holds_def new_sheet_def)

text \<open>Validation without findings and the tables of two workbooks.\<close>

lemma holds_key: "holds ib X rl cl v \<Longrightarrow> (title X, rl, cl) \<in> keys_of ib X"
proof -
  assume "holds ib X rl cl v"
  then obtain r c where a: "2 \<le> r" "r \<le> max_row X" "2 \<le> c" "c \<le> max_column X"
    "cells X (r, 1) = Some rl" "skip_blank ib rl = Inr False" "cells X (1, c) = Some cl"
    unfolding holds_def by blast
  have i: "r - 1 < max_row X" and j: "c - 1 < max_column X" using a by simp_all
  have "records_of X ! (r - 1) = Some rl" using nth_records_of[OF i] a by simp
  moreover have "classes_of X ! (c - 1) = Some cl" using nth_classes_of[OF j] a by simp
  ultimately show ?thesis unfolding keys_of_def using i j a(6) by blast
qed

lemma ctx_step_disjoint:
  assumes a: "ctx_step nameA KA c0 c1" and b: "ctx_step nameB KB c1 c2" and ne: "nameA \<noteq> nameB"
  shows "KA \<inter> KB = {}"
proof (rule ccontr)
  assume "KA \<inter> KB \<noteq> {}"
  then obtain k where k: "k \<in> KA" "k \<in> KB" by blast
  from ctx_step_bound[OF a k(1)] obtain x y where "c1 k = Some (nameA, x, y)" by blast
  from ctx_step_keep[OF b this] have "c2 k = Some (nameA, x, y)" .
  moreover from ctx_step_bound[OF b k(2)] obtain x' y' where "c2 k = Some (nameB, x', y')" by blast
  ultimately show False using ne by simp
qed

lemma validate_input_single:
  assumes ok: "sheet_ok A"
    and v: "validate_input [A] name ib [] ctx = Inr (wa, [], ctx')"
  shows "valid_sheet ib A \<and> ctx_step name (keys_of ib A) ctx ctx'"
proof -
  have b: "\<forall>sh\<in>set [A]. 1 \<le> max_row sh \<and> 1 \<le> max_column sh"
    using sheet_ok_bounds[OF ok] by simp
  from validate_sheets_spec[OF b v[unfolded validate_input_def]]
  have "(\<forall>sh\<in>set [A]. valid_sheet ib sh) \<and> ctx_step name (\<Union>sh\<in>set [A]. keys_of ib sh) ctx ctx'"
    by simp
  then show ?thesis by simp
qed

text \<open>Merging two tables without a common (record, class) pair, in both orders and again.\<close>

lemma merge_twice:
  assumes MD: "merged ib D" and okA: "sheet_ok A" and vA: "valid_sheet ib A"
    and okB: "sheet_ok B" and vB: "valid_sheet ib B"
  shows "\<exists>D1 D12. merge D A ib = Inr D1 \<and> merge D1 B ib = Inr D12 \<and> merged ib D1 \<and> merged ib D12
           \<and> (\<forall>rl cl v. holds ib D1 rl cl v \<longleftrightarrow>
                 holds ib A rl cl v \<or> (holds ib D rl cl v \<and> (\<forall>v'. \<not> holds ib A rl cl v')))
           \<and> (\<forall>rl cl v. holds ib D12 rl cl v \<longleftrightarrow>
                 holds ib B rl cl v \<or> (holds ib D1 rl cl v \<and> (\<forall>v'. \<not> holds ib B rl cl v')))"
proof -
  from merge_spec[OF MD okA vA] obtain D1 where 1: "merge D A ib = Inr D1" "merged ib D1"
    "\<forall>rl cl v. holds ib D1 rl cl v \<longleftrightarrow>
       holds ib A rl cl v \<or> (holds ib D rl cl v \<and> (\<forall>v'. \<not> holds ib A rl cl v'))" by blast
  from merge_spec[OF 1(2) okB vB] obtain D12 where 2: "merge D1 B ib = Inr D12" "merged ib D12"
    "\<forall>rl cl v. holds ib D12 rl cl v \<longleftrightarrow>
       holds ib B rl cl v \<or> (holds ib D1 rl cl v \<and> (\<forall>v'. \<not> holds ib B rl cl v'))" by blast
  from 1 2 show ?thesis by blast
qed

section \<open>Order and repetition of merges\<close>

text \<open>
  C6. Let \<open>A\<close> and \<open>B\<close> be sheets of the same name from two workbooks that \<^verbatim>\<open>validate_input\<close>
  accepts one after the other without a finding. Then merging \<open>A\<close> and then \<open>B\<close> into a new
  sheet, and merging \<open>B\<close> and then \<open>A\<close>, both succeed and give destinations with the same set
  of (record name, class name, value) triples; and merging \<open>A\<close> once more, directly or after
  \<open>B\<close> has been merged, leaves the set of triples as it is.
\<close>

theorem merge_commutes:
  assumes okA: "sheet_ok A" and okB: "sheet_ok B" and tt: "title A = title B"
    and ne: "nameA \<noteq> nameB"
    and valA: "validate_input [A] nameA ib [] ctx0 = Inr (wa, [], ctx1)"
    and valB: "validate_input [B] nameB ib [] ctx1 = Inr (wb, [], ctx2)"
  shows "\<exists>D1 D2 D12 D21 D11 D121.
           merge (new_sheet t) A ib = Inr D1 \<and> merge D1 B ib = Inr D12
         \<and> merge (new_sheet t) B ib = Inr D2 \<and> merge D2 A ib = Inr D21
         \<and> triples D12 = triples D21
         \<and> merge D1 A ib = Inr D11 \<and> triples D11 = triples D1
         \<and> merge D12 A ib = Inr D121 \<and> triples D121 = triples D12"
proof -
  from validate_input_single[OF okA valA]
  have vA: "valid_sheet ib A" and sA: "ctx_step nameA (keys_of ib A) ctx0 ctx1" by simp_all
  from validate_input_single[OF okB valB]
  have vB: "valid_sheet ib B" and sB: "ctx_step nameB (keys_of ib B) ctx1 ctx2" by simp_all
  from ctx_step_disjoint[OF sA sB ne] have kd: "keys_of ib A \<inter> keys_of ib B = {}" .
  have dis: "\<And>rl cl v v'. holds ib A rl cl v \<Longrightarrow> holds ib B rl cl v' \<Longrightarrow> False"
  proof -
    fix rl cl v v' assume "holds ib A rl cl v" "holds ib B rl cl v'"
    then have "(title A, rl, cl) \<in> keys_of ib A" "(title B, rl, cl) \<in> keys_of ib B"
      by (simp_all add: holds_key)
    with kd tt show False by auto
  qed
  have M0: "merged ib (new_sheet t)" by (rule merged_new_sheet)
  from merge_twice[OF M0 okA vA okB vB] obtain D1 D12 where
    a: "merge (new_sheet t) A ib = Inr D1" "merge D1 B ib = Inr D12" "merged ib D1" "merged ib D12"
    and h1: "\<forall>rl cl v. holds ib D1 rl cl v \<longleftrightarrow>
                 holds ib A rl cl v \<or> (holds ib (new_sheet t) rl cl v \<and> (\<forall>v'. \<not> holds ib A rl cl v'))"
    and h12: "\<forall>rl cl v. holds ib D12 rl cl v \<longleftrightarrow>
                 holds ib B rl cl v \<or> (holds ib D1 rl cl v \<and> (\<forall>v'. \<not> holds ib B rl cl v'))"
    by blast
  from merge_twice[OF M0 okB vB okA vA] obtain D2 D21 where
    b: "merge (new_sheet t) B ib = Inr D2" "merge D2 A ib = Inr D21" "merged ib D2" "merged ib D21"
    and h2: "\<forall>rl cl v. holds ib D2 rl cl v \<longleftrightarrow>
                 holds ib B rl cl v \<or> (holds ib (new_sheet t) rl cl v \<and> (\<forall>v'. \<not> holds ib B rl cl v'))"
    and h21: "\<forall>rl cl v. holds ib D21 rl cl v \<longleftrightarrow>
                 holds ib A rl cl v \<or> (holds ib D2 rl cl v \<and> (\<forall>v'. \<not> holds ib A rl cl v'))"
    by blast
  from merge_spec[OF a(3) okA vA] obtain D11 where
    c: "merge D1 A ib = Inr D11" "merged ib D11"
    and h11: "\<forall>rl cl v. holds ib D11 rl cl v \<longleftrightarrow>
                 holds ib A rl cl v \<or> (holds ib D1 rl cl v \<and> (\<forall>v'. \<not> holds ib A rl cl v'))"
    by blast
  from merge_spec[OF a(4) okA vA] obtain D121 where
    d: "merge D12 A ib = Inr D121" "merged ib D121"
    and h121: "\<forall>rl cl v. holds ib D121 rl cl v \<longleftrightarrow>
                 holds ib A rl cl v \<or> (holds ib D12 rl cl v \<and> (\<forall>v'. \<not> holds ib A rl cl v'))"
    by blast
  have e1: "\<And>rl cl v. holds ib D1 rl cl v \<longleftrightarrow> holds ib A rl cl v"
    using h1 holds_new_sheet by blast
  have e2: "\<And>rl cl v. holds ib D2 rl cl v \<longleftrightarrow> holds ib B rl cl v"
    using h2 holds_new_sheet by blast
  have e12: "\<And>rl cl v. holds ib D12 rl cl v \<longleftrightarrow> holds ib A rl cl v \<or> holds ib B rl cl v"
  proof -
    fix rl cl v
    have "holds ib D12 rl cl v \<longleftrightarrow>
            holds ib B rl cl v \<or> (holds ib A rl cl v \<and> (\<forall>v'. \<not> holds ib B rl cl v'))"
      using h12 e1 by simp
    then show "holds ib D12 rl cl v \<longleftrightarrow> holds ib A rl cl v \<or> holds ib B rl cl v"
      using dis[of rl cl v] by blast
  qed
  have e21: "\<And>rl cl v. holds ib D21 rl cl v \<longleftrightarrow> holds ib A rl cl v \<or> holds ib B rl cl v"
  proof -
    fix rl cl v
    have "holds ib D21 rl cl v \<longleftrightarrow>
            holds ib A rl cl v \<or> (holds ib B rl cl v \<and> (\<forall>v'. \<not> holds ib A rl cl v'))"
      using h21 e2 by simp
    then show "holds ib D21 rl cl v \<longleftrightarrow> holds ib A rl cl v \<or> holds ib B rl cl v"
      using dis[of rl cl _ v] by blast
  qed
  have e11: "\<And>rl cl v. holds ib D11 rl cl v \<longleftrightarrow> holds ib D1 rl cl v"
  proof -
    fix rl cl v
    have "holds ib D11 rl cl v \<longleftrightarrow>
            holds ib A rl cl v \<or> (holds ib A rl cl v \<and> (\<forall>v'. \<not> holds ib A rl cl v'))"
      using h11 e1 by simp
    then show "holds ib D11 rl cl v \<longleftrightarrow> holds ib D1 rl cl v" using e1 by blast
  qed
  have e121: "\<And>rl cl v. holds ib D121 rl cl v \<longleftrightarrow> holds ib D12 rl cl v"
  proof -
    fix rl cl v
    have "holds ib D121 rl cl v \<longleftrightarrow>
            holds ib A rl cl v \<or> ((holds ib A rl cl v \<or> holds ib B rl cl v)
               \<and> (\<forall>v'. \<not> holds ib A rl cl v'))"
      using h121 e12 by simp
    then show "holds ib D121 rl cl v \<longleftrightarrow> holds ib D12 rl cl v"
      using e12[of rl cl v] dis[of rl cl _ v] by blast
  qed
  have "triples D12 = triples D21"
    by (rule triples_eqI[OF a(4) b(4)]) (simp add: e12 e21)
  moreover have "triples D11 = triples D1"
    by (rule triples_eqI[OF c(2) a(3)]) (rule e11)
  moreover have "triples D121 = triples D12"
    by (rule triples_eqI[OF d(2) a(4)]) (rule e121)
  ultimately show ?thesis using a(1,2) b(1,2) c(1) d(1) by blast
qed

theorem merge_commutes_witness:
  "\<exists>D1 D2 D12 D21 D11 D121.
      merge (new_sheet ''S'')
        \<lparr>title = ''S'', max_row = 2, max_column = 2,
         cells = map_of [((1, 2), Str ''A''), ((2, 1), Str ''r''), ((2, 2), Num 1)]\<rparr> False = Inr D1
    \<and> merge D1
        \<lparr>title = ''S'', max_row = 2, max_column = 2,
         cells = map_of [((1, 2), Str ''B''), ((2, 1), Str ''r''), ((2, 2), Num 2)]\<rparr> False = Inr D12
    \<and> merge (new_sheet ''S'')
        \<lparr>title = ''S'', max_row = 2, max_column = 2,
         cells = map_of [((1, 2), Str ''B''), ((2, 1), Str ''r''), ((2, 2), Num 2)]\<rparr> False = Inr D2
    \<and> merge D2
        \<lparr>title = ''S'', max_row = 2, max_column = 2,
         cells = map_of [((1, 2), Str ''A''), ((2, 1), Str ''r''), ((2, 2), Num 1)]\<rparr> False = Inr D21
    \<and> triples D12 = triples D21
    \<and> merge D1
        \<lparr>title = ''S'', max_row = 2, max_column = 2,
         cells = map_of [((1, 2), Str ''A''), ((2, 1), Str ''r''), ((2, 2), Num 1)]\<rparr> False = Inr D11
    \<and> triples D11 = triples D1
    \<and> merge D12
        \<lparr>title = ''S'', max_row = 2, max_column = 2,
         cells = map_of [((1, 2), Str ''A''), ((2, 1), Str ''r''), ((2, 2), Num 1)]\<rparr> False = Inr D121
    \<and> triples D121 = triples D12"
proof -
  let ?A = "\<lparr>title = ''S'', max_row = 2, max_column = 2,
         cells = map_of [((1, 2), Str ''A''), ((2, 1), Str ''r''), ((2, 2), Num 1)]\<rparr>"
  let ?B = "\<lparr>title = ''S'', max_row = 2, max_column = 2,
         cells = map_of [((1, 2), Str ''B''), ((2, 1), Str ''r''), ((2, 2), Num 2)]\<rparr>"
  have okA: "sheet_ok ?A" by (auto simp: sheet_ok_def split: if_splits)
  have okB: "sheet_ok ?B" by (auto simp: sheet_ok_def split: if_splits)
  have tt: "title ?A = title ?B" by simp
  have ne: "''a'' \<noteq> ''b''" by simp
  have valA: "validate_input [?A] ''a'' False [] Map.empty
              = Inr ([?A], [], [(''S'', Str ''r'', Str ''A'') \<mapsto> (''a'', 2, 2)])"
    by (simp add: validate_defs numeral_2_eq_2)
  have valB: "validate_input [?B] ''b'' False [] [(''S'', Str ''r'', Str ''A'') \<mapsto> (''a'', 2, 2)]
              = Inr ([?B], [],
                  [(''S'', Str ''r'', Str ''A'') \<mapsto> (''a'', 2, 2),
                   (''S'', Str ''r'', Str ''B'') \<mapsto> (''b'', 2, 2)])"
    by (simp add: validate_defs numeral_2_eq_2)
  from merge_commutes[OF okA okB tt ne valA valB, of "''S''"] show ?thesis .
qed






























































section \<open>The round trip of merge and verification\<close>




end
